theory Spec2Isabelle
  imports Complex_Main "HOL-Library.AList"
begin

section \<open>Bytes and character classes\<close>

text \<open>
  A Go \<^verbatim>\<open>string\<close> is a sequence of bytes and \<^verbatim>\<open>l.input[i]\<close> reads one byte, so the
  input is a \<^typ>\<open>string\<close> (a list of 8-bit characters).  The lexers call
  \<^verbatim>\<open>unicode.IsSpace(rune(c))\<close> and \<^verbatim>\<open>unicode.IsDigit(rune(c))\<close> on a single byte
  \<^verbatim>\<open>c\<close>, that is on a code point below 256: the white space there is
  TAB, LF, VT, FF, CR, SPACE, NEL (0x85) and NBSP (0xA0), the digits are 0 to 9.
\<close>

definition isSpace :: "char \<Rightarrow> bool" where
  "isSpace c = (let n = (of_char c :: nat) in (9 \<le> n \<and> n \<le> 13) \<or> n = 32 \<or> n = 133 \<or> n = 160)"

definition isDigit :: "char \<Rightarrow> bool" where
  "isDigit c = (let n = (of_char c :: nat) in 48 \<le> n \<and> n \<le> 57)"

text \<open>The Go slice expression \<^verbatim>\<open>s[a:b]\<close> (every use in the source has \<open>a \<le> b \<le> len s\<close>).\<close>

definition slice :: "string \<Rightarrow> nat \<Rightarrow> nat \<Rightarrow> string" where
  "slice s a b = take (b - a) (drop a s)"

section \<open>The TOML lexer (package toml)\<close>

datatype toml_tokenType =
    toml_tokenEOF | toml_tokenString | toml_tokenNumber | toml_tokenTrue | toml_tokenFalse
  | toml_tokenDate | toml_tokenLeftBracket | toml_tokenRightBracket | toml_tokenDot
  | toml_tokenEquals | toml_tokenComma | toml_tokenNewline

record toml_token =
  t_typ :: toml_tokenType
  t_value :: string

record toml_lexer =
  t_input :: string
  t_pos :: nat
  t_line :: nat
  t_col :: nat

definition toml_newLexer :: "string \<Rightarrow> toml_lexer" where
  "toml_newLexer inp = \<lparr>t_input = inp, t_pos = 0, t_line = 1, t_col = 1\<rparr>"

definition toml_tok :: "toml_tokenType \<Rightarrow> string \<Rightarrow> toml_token" where
  "toml_tok ty v = \<lparr>t_typ = ty, t_value = v\<rparr>"

text \<open>
  \<^verbatim>\<open>skipWhitespace\<close>: on a newline the line counter is bumped and the column reset,
  and then, like for any other white space, \<^verbatim>\<open>l.pos++; l.col++\<close> run: only a
  byte that is neither a newline nor white space leaves the loop.
\<close>

function toml_skipWhitespace :: "toml_lexer \<Rightarrow> toml_lexer" where
  "toml_skipWhitespace l =
     (if t_pos l < length (t_input l) then
        (if t_input l ! t_pos l = CHR 0x0A then
           toml_skipWhitespace (l\<lparr>t_line := t_line l + 1, t_col := 1 + 1, t_pos := t_pos l + 1\<rparr>)
         else if \<not> isSpace (t_input l ! t_pos l) then l
         else toml_skipWhitespace (l\<lparr>t_pos := t_pos l + 1, t_col := t_col l + 1\<rparr>))
      else l)"
  by pat_completeness auto
termination
  by (relation "measure (\<lambda>l. length (t_input l) - t_pos l)") auto

declare toml_skipWhitespace.simps [simp del]

text \<open>
  \<^verbatim>\<open>readString\<close>, after \<^verbatim>\<open>start := l.pos; l.pos++; l.col++\<close>: the loop.  A quote ends
  the string when the byte before it is not a backslash.
\<close>

function toml_readString_loop :: "nat \<Rightarrow> toml_lexer \<Rightarrow> toml_token \<times> toml_lexer" where
  "toml_readString_loop start l =
     (if t_pos l < length (t_input l) then
        (if t_input l ! t_pos l = CHR 0x22 \<and> t_input l ! (t_pos l - 1) \<noteq> CHR 0x5C then
           (toml_tok toml_tokenString (slice (t_input l) (start + 1) (t_pos l + 1 - 1)),
            l\<lparr>t_pos := t_pos l + 1, t_col := t_col l + 1\<rparr>)
         else if t_input l ! t_pos l = CHR 0x0A then
           toml_readString_loop start (l\<lparr>t_line := t_line l + 1, t_col := 1, t_pos := t_pos l + 1\<rparr>)
         else
           toml_readString_loop start (l\<lparr>t_col := t_col l + 1, t_pos := t_pos l + 1\<rparr>))
      else (toml_tok toml_tokenEOF [], l))"
  by pat_completeness auto
termination
  by (relation "measure (\<lambda>(start, l). length (t_input l) - t_pos l)") auto

declare toml_readString_loop.simps [simp del]

definition toml_readString :: "toml_lexer \<Rightarrow> toml_token \<times> toml_lexer" where
  "toml_readString l = toml_readString_loop (t_pos l) (l\<lparr>t_pos := t_pos l + 1, t_col := t_col l + 1\<rparr>)"

text \<open>\<^verbatim>\<open>readNumberOrDate\<close>: the loop carries \<^verbatim>\<open>isDate\<close>.\<close>

function toml_readNumberOrDate_loop :: "nat \<Rightarrow> bool \<Rightarrow> toml_lexer \<Rightarrow> toml_token \<times> toml_lexer" where
  "toml_readNumberOrDate_loop start isDate l =
     (if t_pos l < length (t_input l) then
        (if t_input l ! t_pos l = CHR ''T'' \<or> t_input l ! t_pos l = CHR ''Z''
            \<or> t_input l ! t_pos l = CHR ''-'' \<or> t_input l ! t_pos l = CHR '':'' then
           toml_readNumberOrDate_loop start True (l\<lparr>t_pos := t_pos l + 1, t_col := t_col l + 1\<rparr>)
         else if \<not> isDigit (t_input l ! t_pos l) \<and> t_input l ! t_pos l \<noteq> CHR ''.''
                 \<and> t_input l ! t_pos l \<noteq> CHR ''+'' \<and> t_input l ! t_pos l \<noteq> CHR ''e''
                 \<and> t_input l ! t_pos l \<noteq> CHR ''E'' then
           (toml_tok (if isDate then toml_tokenDate else toml_tokenNumber)
              (slice (t_input l) start (t_pos l)), l)
         else
           toml_readNumberOrDate_loop start isDate (l\<lparr>t_pos := t_pos l + 1, t_col := t_col l + 1\<rparr>))
      else
        (toml_tok (if isDate then toml_tokenDate else toml_tokenNumber)
           (slice (t_input l) start (t_pos l)), l))"
  by pat_completeness auto
termination
  by (relation "measure (\<lambda>(start, isDate, l). length (t_input l) - t_pos l)") auto

declare toml_readNumberOrDate_loop.simps [simp del]

definition toml_readNumberOrDate :: "toml_lexer \<Rightarrow> toml_token \<times> toml_lexer" where
  "toml_readNumberOrDate l = toml_readNumberOrDate_loop (t_pos l) False l"

text \<open>
  The code of \<^verbatim>\<open>next\<close> after its \<^verbatim>\<open>switch\<close>: reached when no case matched, and when
  the look-ahead of the \<^verbatim>\<open>t\<close> or \<^verbatim>\<open>f\<close> case failed.
\<close>

definition toml_next_rest :: "toml_lexer \<Rightarrow> toml_token \<times> toml_lexer" where
  "toml_next_rest l =
     (if t_input l ! t_pos l = CHR ''-'' \<or> isDigit (t_input l ! t_pos l) then toml_readNumberOrDate l
      else (toml_tok toml_tokenEOF [], l))"

definition toml_advance :: "nat \<Rightarrow> toml_lexer \<Rightarrow> toml_lexer" where
  "toml_advance n l = l\<lparr>t_pos := t_pos l + n, t_col := t_col l + n\<rparr>"

text \<open>\<^verbatim>\<open>func (l *lexer) next() token\<close>: the token and the lexer after the call.\<close>

definition toml_lexer_next :: "toml_lexer \<Rightarrow> toml_token \<times> toml_lexer" where
  "toml_lexer_next l0 =
     (let l = toml_skipWhitespace l0 in
      if t_pos l \<ge> length (t_input l) then (toml_tok toml_tokenEOF [], l)
      else
        (let c = t_input l ! t_pos l in
         if c = CHR ''['' then (toml_tok toml_tokenLeftBracket ''['', toml_advance 1 l)
         else if c = CHR '']'' then (toml_tok toml_tokenRightBracket '']'', toml_advance 1 l)
         else if c = CHR ''.'' then (toml_tok toml_tokenDot ''.'', toml_advance 1 l)
         else if c = CHR ''='' then (toml_tok toml_tokenEquals ''='', toml_advance 1 l)
         else if c = CHR '','' then (toml_tok toml_tokenComma '','', toml_advance 1 l)
         else if c = CHR 0x0A then
           (toml_tok toml_tokenNewline [CHR 0x0A], l\<lparr>t_pos := t_pos l + 1, t_line := t_line l + 1, t_col := 1\<rparr>)
         else if c = CHR 0x22 then toml_readString l
         else if c = CHR ''t'' then
           (if t_pos l + 3 < length (t_input l) \<and> slice (t_input l) (t_pos l) (t_pos l + 4) = ''true''
            then (toml_tok toml_tokenTrue ''true'', toml_advance 4 l)
            else toml_next_rest l)
         else if c = CHR ''f'' then
           (if t_pos l + 4 < length (t_input l) \<and> slice (t_input l) (t_pos l) (t_pos l + 5) = ''false''
            then (toml_tok toml_tokenFalse ''false'', toml_advance 5 l)
            else toml_next_rest l)
         else toml_next_rest l))"

section \<open>Parsed values, errors and results\<close>

text \<open>
  The parsers build values of Go type \<^verbatim>\<open>interface{}\<close>.  Its dynamic values here are
  \<^verbatim>\<open>nil\<close>, \<^verbatim>\<open>string\<close>, \<^verbatim>\<open>int64\<close>, \<^verbatim>\<open>float64\<close>, \<^verbatim>\<open>bool\<close>, \<^verbatim>\<open>[]interface{}\<close>,
  \<^verbatim>\<open>map[string]interface{}\<close> and (TOML only) \<^verbatim>\<open>time.Time\<close>.

  A \<^verbatim>\<open>float64\<close> is modelled by the rational number that its shortest decimal
  representation denotes (what \<^verbatim>\<open>strconv.FormatFloat(f, 'f', -1, 64)\<close> prints); this is
  exact for literals of up to 15 significant digits in the normal range.  NaN and the
  infinities are not modelled.  An \<^verbatim>\<open>int64\<close> is an \<^typ>\<open>int\<close> in the 64-bit range.

  A Go map is modelled by an association list with distinct keys; the order of the list
  stands for the iteration order that the Go runtime happens to choose.
\<close>

record gotime =
  tm_year :: nat
  tm_month :: nat
  tm_day :: nat
  tm_hour :: nat
  tm_minute :: nat
  tm_second :: nat
  tm_nsec :: int
  tm_offset :: int

datatype dyn =
    DNil
  | DString string
  | DInt64 int
  | DFloat64 rat
  | DBool bool
  | DSlice "dyn list"
  | DMap "(string \<times> dyn) list"
  | DTime gotime

datatype numErr = ErrSyntax | ErrRange

text \<open>
  One constructor for each place where the source builds an error.  A token printed with
  \<^verbatim>\<open>%v\<close> is kept as the number of its type and its text.
\<close>

datatype error =
    ErrUnexpectedToken nat string
  | ErrExpectedCommaOrRBracket nat string
  | ErrExpectedRBracket nat string
  | ErrCannotUseAsTable string
  | ErrExpectedEquals nat string
  | ErrExpectedNewlineOrEOF nat string
  | ErrExpectedStringKey nat string
  | ErrExpectedColon nat string
  | ErrExpectedCommaOrRBrace nat string
  | ErrNum string string numErr
  | ErrTimeParse string
  | ErrMustBePointer
  | ErrCannotConvert dyn string
  | ErrUnsupportedType string

datatype panic =
    PanicSliceBounds
  | PanicInterfaceConversion
  | PanicReflect string

text \<open>What a call does: it returns a value, returns an error, or panics.\<close>

datatype 'a ret = Ok 'a | Error error | Panic panic

section \<open>Library functions used by the parsers\<close>

definition digitVal :: "char \<Rightarrow> int" where
  "digitVal c = of_char c - 48"

definition decimal :: "string \<Rightarrow> int" where
  "decimal ds = foldl (\<lambda>a c. 10 * a + digitVal c) 0 ds"

text \<open>
  \<^verbatim>\<open>strconv.ParseInt(s, 10, 64)\<close>: an optional sign and then at least one digit and
  nothing but digits; a value outside the \<^verbatim>\<open>int64\<close> range is a range error.
\<close>

definition ParseInt :: "string \<Rightarrow> numErr + int" where
  "ParseInt s =
     (if s = [] then Inl ErrSyntax
      else
        (let neg = (hd s = CHR ''-'');
             body = (if hd s = CHR ''+'' \<or> hd s = CHR ''-'' then tl s else s)
         in if body = [] \<or> \<not> list_all isDigit body then Inl ErrSyntax
            else if neg then
              (if decimal body \<le> 2 ^ 63 then Inr (- decimal body) else Inl ErrRange)
            else
              (if decimal body < 2 ^ 63 then Inr (decimal body) else Inl ErrRange)))"

text \<open>
  \<^verbatim>\<open>strconv.ParseFloat(s, 64)\<close> on the decimal syntax (a number token holds only digits
  and the bytes \<^verbatim>\<open>. - + e E\<close>, so the hexadecimal, underscore, \<^verbatim>\<open>inf\<close> and \<^verbatim>\<open>nan\<close> forms
  cannot occur): an optional sign, digits with at most one point and at least one digit,
  and an optional exponent with an optional sign and at least one digit.  The value is
  the rational the literal denotes; at or beyond \<open>2^1024 - 2^970\<close> the conversion
  overflows, which is a range error.
\<close>

definition stripSign :: "string \<Rightarrow> bool \<times> string" where
  "stripSign s =
     (case s of
        [] \<Rightarrow> (False, [])
      | c # r \<Rightarrow> if c = CHR ''+'' then (False, r) else if c = CHR ''-'' then (True, r) else (False, s))"

definition floatOf :: "bool \<Rightarrow> string \<Rightarrow> string \<Rightarrow> int \<Rightarrow> numErr + rat" where
  "floatOf neg ip fp e =
     (let m = of_int (decimal (ip @ fp)) :: rat;
          x = (if e - int (length fp) \<ge> 0 then m * 10 ^ nat (e - int (length fp))
               else m / 10 ^ nat (int (length fp) - e))
      in if x \<ge> 2 ^ 1024 - 2 ^ 970 then Inl ErrRange
         else Inr (if neg then - x else x))"

definition ParseFloat :: "string \<Rightarrow> numErr + rat" where
  "ParseFloat s =
     (let neg = fst (stripSign s);
          s1 = snd (stripSign s);
          ip = takeWhile isDigit s1;
          s2 = dropWhile isDigit s1;
          dot = (s2 \<noteq> [] \<and> hd s2 = CHR ''.'');
          fp = (if dot then takeWhile isDigit (tl s2) else []);
          s3 = (if dot then dropWhile isDigit (tl s2) else s2)
      in if ip = [] \<and> fp = [] then Inl ErrSyntax
         else if s3 = [] then floatOf neg ip fp 0
         else if hd s3 = CHR ''e'' \<or> hd s3 = CHR ''E'' then
           (let eneg = fst (stripSign (tl s3));
                ds = snd (stripSign (tl s3))
            in if ds = [] \<or> \<not> list_all isDigit ds then Inl ErrSyntax
               else floatOf neg ip fp (if eneg then - decimal ds else decimal ds))
         else Inl ErrSyntax)"

text \<open>
  \<^verbatim>\<open>time.Parse(time.RFC3339, s)\<close>, modelled on the layout \<^verbatim>\<open>2006-01-02T15:04:05Z07:00\<close>:
  a four-digit year, two-digit month and day (the day checked against the month), an
  hour of one or two digits, two-digit minute and second, an optional fraction, and
  \<^verbatim>\<open>Z\<close> or a signed \<^verbatim>\<open>hh:mm\<close> offset; anything left over is an error.
\<close>

definition isLeap :: "nat \<Rightarrow> bool" where
  "isLeap y = (y mod 4 = 0 \<and> (y mod 100 \<noteq> 0 \<or> y mod 400 = 0))"

definition daysIn :: "nat \<Rightarrow> nat \<Rightarrow> nat" where
  "daysIn m y =
     (if m = 2 then (if isLeap y then 29 else 28)
      else if m = 4 \<or> m = 6 \<or> m = 9 \<or> m = 11 then 30 else 31)"

definition fixedNum :: "nat \<Rightarrow> string \<Rightarrow> (nat \<times> string) option" where
  "fixedNum n s =
     (if length s \<ge> n \<and> list_all isDigit (take n s) then Some (nat (decimal (take n s)), drop n s)
      else None)"

definition expect :: "char \<Rightarrow> string \<Rightarrow> string option" where
  "expect c s = (case s of [] \<Rightarrow> None | d # r \<Rightarrow> if d = c then Some r else None)"

definition parseZone :: "string \<Rightarrow> int option" where
  "parseZone s =
     (if s = ''Z'' then Some 0
      else if length s = 6 \<and> (hd s = CHR ''+'' \<or> hd s = CHR ''-'') \<and> s ! 3 = CHR '':''
              \<and> list_all isDigit (slice s 1 3) \<and> list_all isDigit (slice s 4 6)
              \<and> decimal (slice s 1 3) \<le> 24 \<and> decimal (slice s 4 6) \<le> 60 then
        Some ((if hd s = CHR ''-'' then - 1 else 1)
              * (decimal (slice s 1 3) * 3600 + decimal (slice s 4 6) * 60))
      else None)"

definition parseFraction :: "string \<Rightarrow> int \<times> string" where
  "parseFraction s =
     (if length s \<ge> 2 \<and> hd s = CHR ''.'' \<and> isDigit (s ! 1) then
        (decimal (take 9 (takeWhile isDigit (tl s) @ ''000000000'')), dropWhile isDigit (tl s))
      else (0, s))"

definition time_fields :: "string \<Rightarrow> (nat list \<times> string) option" where
  "time_fields s =
     Option.bind (fixedNum 4 s) (\<lambda>y.
     Option.bind (expect CHR ''-'' (snd y)) (\<lambda>s2.
     Option.bind (fixedNum 2 s2) (\<lambda>mo.
     Option.bind (expect CHR ''-'' (snd mo)) (\<lambda>s4.
     Option.bind (fixedNum 2 s4) (\<lambda>d.
     Option.bind (expect CHR ''T'' (snd d)) (\<lambda>s6.
     Option.bind (if fixedNum 2 s6 \<noteq> None then fixedNum 2 s6 else fixedNum 1 s6) (\<lambda>h.
     Option.bind (expect CHR '':'' (snd h)) (\<lambda>s8.
     Option.bind (fixedNum 2 s8) (\<lambda>mi.
     Option.bind (expect CHR '':'' (snd mi)) (\<lambda>s10.
     Option.bind (fixedNum 2 s10) (\<lambda>sec.
       Some ([fst y, fst mo, fst d, fst h, fst mi, fst sec], snd sec))))))))))))"

definition time_Parse_RFC3339 :: "string \<Rightarrow> gotime option" where
  "time_Parse_RFC3339 s =
     (case time_fields s of
        Some ([y, mo, d, h, mi, sec], s11) \<Rightarrow>
          (case parseZone (snd (parseFraction s11)) of
             None \<Rightarrow> None
           | Some off \<Rightarrow>
               if 1 \<le> mo \<and> mo \<le> 12 \<and> 1 \<le> d \<and> d \<le> daysIn mo y \<and> h < 24 \<and> mi < 60 \<and> sec < 60 then
                 Some \<lparr>tm_year = y, tm_month = mo, tm_day = d, tm_hour = h, tm_minute = mi,
                       tm_second = sec, tm_nsec = fst (parseFraction s11), tm_offset = off\<rparr>
               else None)
      | _ \<Rightarrow> None)"

text \<open>\<^verbatim>\<open>strings.Contains\<close> with a one-byte pattern, and \<^verbatim>\<open>strings.Join\<close>.\<close>

definition containsByte :: "string \<Rightarrow> char \<Rightarrow> bool" where
  "containsByte s c = (c \<in> set s)"

fun Join :: "string list \<Rightarrow> string \<Rightarrow> string" where
  "Join [] sep = []"
| "Join [x] sep = x"
| "Join (x # y # ys) sep = x @ sep @ Join (y # ys) sep"

section \<open>The TOML parser\<close>

record toml_parser =
  t_lexer :: toml_lexer
  t_token :: toml_token

definition toml_newParser :: "string \<Rightarrow> toml_parser" where
  "toml_newParser inp =
     \<lparr>t_lexer = snd (toml_lexer_next (toml_newLexer inp)),
      t_token = fst (toml_lexer_next (toml_newLexer inp))\<rparr>"

definition toml_parser_next :: "toml_parser \<Rightarrow> toml_parser" where
  "toml_parser_next p =
     \<lparr>t_lexer = snd (toml_lexer_next (t_lexer p)), t_token = fst (toml_lexer_next (t_lexer p))\<rparr>"

fun toml_typ_code :: "toml_tokenType \<Rightarrow> nat" where
  "toml_typ_code toml_tokenEOF = 0"
| "toml_typ_code toml_tokenString = 1"
| "toml_typ_code toml_tokenNumber = 2"
| "toml_typ_code toml_tokenTrue = 3"
| "toml_typ_code toml_tokenFalse = 4"
| "toml_typ_code toml_tokenDate = 5"
| "toml_typ_code toml_tokenLeftBracket = 6"
| "toml_typ_code toml_tokenRightBracket = 7"
| "toml_typ_code toml_tokenDot = 8"
| "toml_typ_code toml_tokenEquals = 9"
| "toml_typ_code toml_tokenComma = 10"
| "toml_typ_code toml_tokenNewline = 11"

definition toml_err :: "(nat \<Rightarrow> string \<Rightarrow> error) \<Rightarrow> toml_parser \<Rightarrow> 'a ret" where
  "toml_err mk p = Error (mk (toml_typ_code (t_typ (t_token p))) (t_value (t_token p)))"

text \<open>
  \<^verbatim>\<open>parseValue\<close> and the loop of \<^verbatim>\<open>parseArray\<close>.  The recursion follows the tokens of the
  input, so the functions take fuel: the first argument bounds the number of nested
  calls and loop rounds, and \<open>None\<close> means that it ran out.
\<close>

fun toml_parseValue :: "nat \<Rightarrow> toml_parser \<Rightarrow> (dyn \<times> toml_parser) ret option"
  and toml_parseArray_loop :: "nat \<Rightarrow> dyn list \<Rightarrow> toml_parser \<Rightarrow> (dyn \<times> toml_parser) ret option"
where
  "toml_parseValue 0 p = None"
| "toml_parseValue (Suc n) p =
     (case t_typ (t_token p) of
        toml_tokenString \<Rightarrow> Some (Ok (DString (t_value (t_token p)), toml_parser_next p))
      | toml_tokenNumber \<Rightarrow>
          (if containsByte (t_value (t_token p)) CHR ''.'' then
             (case ParseFloat (t_value (t_token p)) of
                Inl e \<Rightarrow> Some (Error (ErrNum ''ParseFloat'' (t_value (t_token p)) e))
              | Inr f \<Rightarrow> Some (Ok (DFloat64 f, toml_parser_next p)))
           else
             (case ParseInt (t_value (t_token p)) of
                Inl e \<Rightarrow> Some (Error (ErrNum ''ParseInt'' (t_value (t_token p)) e))
              | Inr i \<Rightarrow> Some (Ok (DInt64 i, toml_parser_next p))))
      | toml_tokenDate \<Rightarrow>
          (case time_Parse_RFC3339 (t_value (t_token p)) of
             None \<Rightarrow> Some (Error (ErrTimeParse (t_value (t_token p))))
           | Some t \<Rightarrow> Some (Ok (DTime t, toml_parser_next p)))
      | toml_tokenTrue \<Rightarrow> Some (Ok (DBool True, toml_parser_next p))
      | toml_tokenFalse \<Rightarrow> Some (Ok (DBool False, toml_parser_next p))
      | toml_tokenLeftBracket \<Rightarrow>
          (if t_typ (t_token (toml_parser_next p)) = toml_tokenRightBracket then
             Some (Ok (DSlice [], toml_parser_next (toml_parser_next p)))
           else toml_parseArray_loop n [] (toml_parser_next p))
      | _ \<Rightarrow> Some (toml_err ErrUnexpectedToken p))"
| "toml_parseArray_loop 0 arr p = None"
| "toml_parseArray_loop (Suc n) arr p =
     (case toml_parseValue n p of
        None \<Rightarrow> None
      | Some (Error e) \<Rightarrow> Some (Error e)
      | Some (Panic q) \<Rightarrow> Some (Panic q)
      | Some (Ok (v, p1)) \<Rightarrow>
          (if t_typ (t_token p1) = toml_tokenRightBracket then
             Some (Ok (DSlice (arr @ [v]), toml_parser_next p1))
           else if t_typ (t_token p1) \<noteq> toml_tokenComma then
             Some (toml_err ErrExpectedCommaOrRBracket p1)
           else toml_parseArray_loop n (arr @ [v]) (toml_parser_next p1)))"

text \<open>\<^verbatim>\<open>parseTablePath\<close>: the loop, with the path read so far.\<close>

fun toml_parseTablePath_loop :: "nat \<Rightarrow> string list \<Rightarrow> toml_parser \<Rightarrow> (string list \<times> toml_parser) option" where
  "toml_parseTablePath_loop 0 path p = None"
| "toml_parseTablePath_loop (Suc n) path p =
     (if t_typ (t_token p) \<noteq> toml_tokenString then Some (path, p)
      else if t_typ (t_token (toml_parser_next p)) \<noteq> toml_tokenDot then
        Some (path @ [t_value (t_token p)], toml_parser_next p)
      else toml_parseTablePath_loop n (path @ [t_value (t_token p)])
             (toml_parser_next (toml_parser_next p)))"

text \<open>
  The table header of \<^verbatim>\<open>parseTable\<close>, after the path has been read.  The loop over
  \<^verbatim>\<open>path[:len(path)-1]\<close> walks down from the root and creates an empty table where a
  segment is missing; the statement after the loop reads the last segment with the
  type assertion \<^verbatim>\<open>current[path[len(path)-1]].(map[string]interface{})\<close>, which panics
  unless that key holds a table.  The slice expression itself panics on an empty path.
  \<open>toml_walk\<close> returns the table it was given with the tables created below it.
\<close>

fun toml_walk :: "string list \<Rightarrow> (string \<times> dyn) list \<Rightarrow> string list \<Rightarrow> string \<Rightarrow> (string \<times> dyn) list ret" where
  "toml_walk pre cur [] lst =
     (case map_of cur lst of
        Some (DMap m) \<Rightarrow> Ok cur
      | _ \<Rightarrow> Panic PanicInterfaceConversion)"
| "toml_walk pre cur (key # keys) lst =
     (let cur1 = (if map_of cur key = None then AList.update key (DMap []) cur else cur)
      in case map_of cur1 key of
           Some (DMap nxt) \<Rightarrow>
             (case toml_walk (pre @ [key]) nxt keys lst of
                Ok nxt1 \<Rightarrow> Ok (AList.update key (DMap nxt1) cur1)
              | Error e \<Rightarrow> Error e
              | Panic q \<Rightarrow> Panic q)
         | _ \<Rightarrow> Error (ErrCannotUseAsTable (Join (pre @ [key]) ''.'')))"

definition toml_navigate :: "(string \<times> dyn) list \<Rightarrow> string list \<Rightarrow> (string \<times> dyn) list ret" where
  "toml_navigate table path =
     (if path = [] then Panic PanicSliceBounds
      else toml_walk [] table (butlast path) (last path))"

text \<open>
  \<^verbatim>\<open>current[key] = value\<close>.  \<^verbatim>\<open>current\<close> is a reference to the root table or to a table
  nested in it; the model keeps the keys that lead from the root to it.
\<close>

fun toml_assign :: "(string \<times> dyn) list \<Rightarrow> string list \<Rightarrow> string \<Rightarrow> dyn \<Rightarrow> (string \<times> dyn) list" where
  "toml_assign tbl [] key v = AList.update key v tbl"
| "toml_assign tbl (k # ks) key v =
     (case map_of tbl k of
        Some (DMap sub) \<Rightarrow> AList.update k (DMap (toml_assign sub ks key v)) tbl
      | _ \<Rightarrow> tbl)"

text \<open>The loop of \<^verbatim>\<open>parseTable\<close>: the root table, the current table, and the parser.\<close>

fun toml_parseTable_loop :: "nat \<Rightarrow> (string \<times> dyn) list \<Rightarrow> string list \<Rightarrow> toml_parser \<Rightarrow> (string \<times> dyn) list ret option" where
  "toml_parseTable_loop 0 table current p = None"
| "toml_parseTable_loop (Suc n) table current p =
     (case t_typ (t_token p) of
        toml_tokenEOF \<Rightarrow> Some (Ok table)
      | toml_tokenLeftBracket \<Rightarrow>
          (case toml_parseTablePath_loop n [] (toml_parser_next p) of
             None \<Rightarrow> None
           | Some (path, p1) \<Rightarrow>
               if t_typ (t_token p1) \<noteq> toml_tokenRightBracket then
                 Some (toml_err ErrExpectedRBracket p1)
               else
                 (case toml_navigate table path of
                    Ok table1 \<Rightarrow> toml_parseTable_loop n table1 path (toml_parser_next p1)
                  | Error e \<Rightarrow> Some (Error e)
                  | Panic q \<Rightarrow> Some (Panic q)))
      | toml_tokenString \<Rightarrow>
          (if t_typ (t_token (toml_parser_next p)) \<noteq> toml_tokenEquals then
             Some (toml_err ErrExpectedEquals (toml_parser_next p))
           else
             (case toml_parseValue n (toml_parser_next (toml_parser_next p)) of
                None \<Rightarrow> None
              | Some (Error e) \<Rightarrow> Some (Error e)
              | Some (Panic q) \<Rightarrow> Some (Panic q)
              | Some (Ok (v, p1)) \<Rightarrow>
                  if t_typ (t_token p1) \<noteq> toml_tokenNewline \<and> t_typ (t_token p1) \<noteq> toml_tokenEOF then
                    Some (toml_err ErrExpectedNewlineOrEOF p1)
                  else
                    toml_parseTable_loop n (toml_assign table current (t_value (t_token p)) v)
                      current (toml_parser_next p1)))
      | _ \<Rightarrow> Some (toml_err ErrUnexpectedToken p))"

text \<open>
  \<^verbatim>\<open>parseTable\<close> on a fresh parser.  Every token takes at least one byte of the input
  and every call and loop round but the first of a loop follows a token, so twice the
  length of the input (and three) is fuel enough.
\<close>

definition toml_parse :: "string \<Rightarrow> (string \<times> dyn) list ret option" where
  "toml_parse data = toml_parseTable_loop (2 * length data + 3) [] [] (toml_newParser data)"

section \<open>Native values\<close>

text \<open>
  What \<^verbatim>\<open>reflect\<close> shows of a Go value: its type, and its content.  A struct field
  carries its name, its package path (empty exactly for an exported field, which is what
  \<^verbatim>\<open>IsExported\<close> tests) and its tag, kept as the list of the tag's keys with their
  values, so that \<^verbatim>\<open>Tag.Get\<close> is a lookup that yields the empty string for a missing
  key.  \<^verbatim>\<open>int\<close> and \<^verbatim>\<open>uint\<close> have 64 bits.  A pointer owns its pointee (no claim depends on
  two pointers to one variable), \<^verbatim>\<open>interface{}\<close> is the only interface type, and
  \<^verbatim>\<open>time.Time\<close>, a struct of three unexported fields, is a value of its own.  The kinds
  that neither codec handles (\<^verbatim>\<open>uintptr\<close>, complex numbers, channels, functions, unsafe
  pointers) are kept by the name of their kind.
\<close>

datatype intKind = KInt | KInt8 | KInt16 | KInt32 | KInt64
datatype uintKind = KUint | KUint8 | KUint16 | KUint32 | KUint64
datatype floatKind = KFloat32 | KFloat64

record fieldInfo =
  f_Name :: string
  f_PkgPath :: string
  f_Tag :: "(string \<times> string) list"

datatype gtype =
    TString
  | TInt intKind
  | TUint uintKind
  | TFloat floatKind
  | TBool
  | TSlice gtype
  | TArray nat gtype
  | TMap gtype gtype
  | TStruct "(fieldInfo \<times> gtype) list"
  | TTime
  | TPtr gtype
  | TInterface
  | TUnsupported string

datatype gval =
    VString string
  | VInt intKind int
  | VUint uintKind int
  | VFloat floatKind rat
  | VBool bool
  | VSlice gtype "gval list option"
  | VArray gtype "gval list"
  | VMap gtype gtype "(gval \<times> gval) list option"
  | VStruct "(fieldInfo \<times> gval) list"
  | VTime gotime
  | VPtr gtype "gval option"
  | VInterface "gval option"
  | VUnsupported string

definition IsExported :: "fieldInfo \<Rightarrow> bool" where
  "IsExported f = (f_PkgPath f = [])"

definition Tag_Get :: "fieldInfo \<Rightarrow> string \<Rightarrow> string" where
  "Tag_Get f key = (case map_of (f_Tag f) key of None \<Rightarrow> [] | Some v \<Rightarrow> v)"

text \<open>
  The wire name of a field, as both codecs compute it in both directions: the field's
  name, or, for a tag that is not empty, \<^verbatim>\<open>strings.Split(tag, ",")[0]\<close>.
\<close>

definition wireName :: "string \<Rightarrow> fieldInfo \<Rightarrow> string" where
  "wireName key f =
     (if Tag_Get f key \<noteq> [] then takeWhile (\<lambda>c. c \<noteq> CHR '','') (Tag_Get f key) else f_Name f)"

definition zeroTime :: gotime where
  "zeroTime = \<lparr>tm_year = 1, tm_month = 1, tm_day = 1, tm_hour = 0, tm_minute = 0,
      tm_second = 0, tm_nsec = 0, tm_offset = 0\<rparr>"

text \<open>\<^verbatim>\<open>reflect.Zero(t)\<close>.\<close>

fun zero :: "gtype \<Rightarrow> gval"
  and zeroFields :: "(fieldInfo \<times> gtype) list \<Rightarrow> (fieldInfo \<times> gval) list"
where
  "zero TString = VString []"
| "zero (TInt k) = VInt k 0"
| "zero (TUint k) = VUint k 0"
| "zero (TFloat k) = VFloat k 0"
| "zero TBool = VBool False"
| "zero (TSlice t) = VSlice t None"
| "zero (TArray n t) = VArray t (replicate n (zero t))"
| "zero (TMap k t) = VMap k t None"
| "zero (TStruct fs) = VStruct (zeroFields fs)"
| "zero TTime = VTime zeroTime"
| "zero (TPtr t) = VPtr t None"
| "zero TInterface = VInterface None"
| "zero (TUnsupported k) = VUnsupported k"
| "zeroFields [] = []"
| "zeroFields (ft # fs) = (fst ft, zero (snd ft)) # zeroFields fs"

text \<open>\<^verbatim>\<open>rv.Type()\<close>.\<close>

fun typeOf :: "gval \<Rightarrow> gtype"
  and typeOfFields :: "(fieldInfo \<times> gval) list \<Rightarrow> (fieldInfo \<times> gtype) list"
where
  "typeOf (VString s) = TString"
| "typeOf (VInt k i) = TInt k"
| "typeOf (VUint k i) = TUint k"
| "typeOf (VFloat k f) = TFloat k"
| "typeOf (VBool b) = TBool"
| "typeOf (VSlice t xs) = TSlice t"
| "typeOf (VArray t xs) = TArray (length xs) t"
| "typeOf (VMap k t m) = TMap k t"
| "typeOf (VStruct fs) = TStruct (typeOfFields fs)"
| "typeOf (VTime t) = TTime"
| "typeOf (VPtr t p) = TPtr t"
| "typeOf (VInterface x) = TInterface"
| "typeOf (VUnsupported k) = TUnsupported k"
| "typeOfFields [] = []"
| "typeOfFields (fv # fs) = (fst fv, typeOf (snd fv)) # typeOfFields fs"

text \<open>The name of \<^verbatim>\<open>rv.Kind()\<close>, as \<^verbatim>\<open>%v\<close> prints it.\<close>

fun kindName :: "gval \<Rightarrow> string" where
  "kindName (VString s) = ''string''"
| "kindName (VInt k i) = ''int''"
| "kindName (VUint k i) = ''uint''"
| "kindName (VFloat k f) = ''float''"
| "kindName (VBool b) = ''bool''"
| "kindName (VSlice t xs) = ''slice''"
| "kindName (VArray t xs) = ''array''"
| "kindName (VMap k t m) = ''map''"
| "kindName (VStruct fs) = ''struct''"
| "kindName (VTime t) = ''struct''"
| "kindName (VPtr t p) = ''ptr''"
| "kindName (VInterface x) = ''interface''"
| "kindName (VUnsupported k) = k"

text \<open>
  \<^verbatim>\<open>reflect.ValueOf(v)\<close> for an argument \<^verbatim>\<open>v any\<close>: the value in the interface, and the
  invalid \<^verbatim>\<open>Value\<close> (\<open>None\<close>) for the nil interface.
\<close>

fun reflect_ValueOf :: "gval \<Rightarrow> gval option" where
  "reflect_ValueOf (VInterface None) = None"
| "reflect_ValueOf (VInterface (Some x)) = reflect_ValueOf x"
| "reflect_ValueOf v = Some v"

text \<open>
  A parsed value stored in a variable of type \<^verbatim>\<open>interface{}\<close>
  (\<^verbatim>\<open>rv.Set(reflect.ValueOf(value))\<close>).
\<close>

fun toInterface :: "dyn \<Rightarrow> gval"
  and toInterfaces :: "dyn list \<Rightarrow> gval list"
  and toEntries :: "(string \<times> dyn) list \<Rightarrow> (gval \<times> gval) list"
where
  "toInterface DNil = VInterface None"
| "toInterface (DString s) = VInterface (Some (VString s))"
| "toInterface (DInt64 i) = VInterface (Some (VInt KInt64 i))"
| "toInterface (DFloat64 f) = VInterface (Some (VFloat KFloat64 f))"
| "toInterface (DBool b) = VInterface (Some (VBool b))"
| "toInterface (DSlice xs) = VInterface (Some (VSlice TInterface (Some (toInterfaces xs))))"
| "toInterface (DMap m) = VInterface (Some (VMap TString TInterface (Some (toEntries m))))"
| "toInterface (DTime t) = VInterface (Some (VTime t))"
| "toInterfaces [] = []"
| "toInterfaces (x # xs) = toInterface x # toInterfaces xs"
| "toEntries [] = []"
| "toEntries (kv # m) = (VString (fst kv), toInterface (snd kv)) # toEntries m"

section \<open>Integer conversions\<close>

definition intBits :: "intKind \<Rightarrow> nat" where
  "intBits k = (case k of KInt \<Rightarrow> 64 | KInt8 \<Rightarrow> 8 | KInt16 \<Rightarrow> 16 | KInt32 \<Rightarrow> 32 | KInt64 \<Rightarrow> 64)"

definition uintBits :: "uintKind \<Rightarrow> nat" where
  "uintBits k = (case k of KUint \<Rightarrow> 64 | KUint8 \<Rightarrow> 8 | KUint16 \<Rightarrow> 16 | KUint32 \<Rightarrow> 32 | KUint64 \<Rightarrow> 64)"

text \<open>\<^verbatim>\<open>rv.SetInt(x)\<close> and \<^verbatim>\<open>rv.SetUint(x)\<close> store \<open>x\<close> truncated to the width of the kind.\<close>

definition wrapInt :: "nat \<Rightarrow> int \<Rightarrow> int" where
  "wrapInt b x = (x + 2 ^ (b - 1)) mod 2 ^ b - 2 ^ (b - 1)"

definition wrapUint :: "nat \<Rightarrow> int \<Rightarrow> int" where
  "wrapUint b x = x mod 2 ^ b"

text \<open>
  The conversions \<^verbatim>\<open>int64(f)\<close> and \<^verbatim>\<open>uint64(f)\<close> of a \<^verbatim>\<open>float64\<close> drop the fraction
  (truncation towards zero).  For a value outside the target range Go leaves the result
  to the implementation; the model takes the results of the amd64 instructions.
\<close>

definition truncRat :: "rat \<Rightarrow> int" where
  "truncRat f = (if f \<ge> 0 then \<lfloor>f\<rfloor> else - \<lfloor>- f\<rfloor>)"

definition float_to_int64 :: "rat \<Rightarrow> int" where
  "float_to_int64 f =
     (if - (2 ^ 63) \<le> truncRat f \<and> truncRat f < 2 ^ 63 then truncRat f else - (2 ^ 63))"

definition float_to_uint64 :: "rat \<Rightarrow> int" where
  "float_to_uint64 f =
     (if truncRat f < 2 ^ 63 then wrapUint 64 (float_to_int64 f)
      else if truncRat f < 2 ^ 64 then truncRat f
      else 0)"

section \<open>Decoding: the value mapper\<close>

text \<open>
  \<^verbatim>\<open>setValue\<close> writes through \<^verbatim>\<open>rv\<close>, so what is in the destination when it returns can
  be seen by the caller also when it returns an error.  The model returns the
  destination as the call leaves it: \<open>Done\<close> with a nil error, \<open>Failed\<close> with the
  error.
\<close>

datatype 'a sres = Done 'a | Failed 'a error | Panicked panic

definition sres_map :: "('a \<Rightarrow> 'b) \<Rightarrow> 'a sres \<Rightarrow> 'b sres" where
  "sres_map f r = (case r of Done x \<Rightarrow> Done (f x) | Failed x e \<Rightarrow> Failed (f x) e | Panicked q \<Rightarrow> Panicked q)"

fun tdepth :: "gtype \<Rightarrow> nat" where
  "tdepth (TPtr t) = Suc (tdepth t)"
| "tdepth t = 0"

fun vdepth :: "gval \<Rightarrow> nat" where
  "vdepth (VPtr t (Some x)) = Suc (vdepth x)"
| "vdepth (VPtr t None) = Suc (tdepth t)"
| "vdepth v = 0"

lemma vdepth_zero: "vdepth (zero t) = tdepth t"
  by (cases t) simp_all

lemma size_map_of:
  "map_of obj k = Some v \<Longrightarrow> size v < Suc (size_list (size_prod (\<lambda>x. 0) size) obj)"
  by (induction obj) (auto split: if_splits)

definition mapKey :: "gtype \<Rightarrow> string \<Rightarrow> gval option" where
  "mapKey kt k =
     (case kt of
        TString \<Rightarrow> Some (VString k)
      | TInterface \<Rightarrow> Some (VInterface (Some (VString k)))
      | _ \<Rightarrow> None)"

text \<open>
  \<^verbatim>\<open>setValue\<close> of package json and of package toml are the same function up to the tag
  key (\<^verbatim>\<open>"json"\<close> or \<^verbatim>\<open>"toml"\<close>), the first argument here.  \<open>setElems\<close> is the loop of
  the slice case over the fresh slice, \<open>setEntries\<close> the loop of the map case with the
  entries stored so far, \<open>setFields\<close> the loop of the struct case.  \<^verbatim>\<open>SetMapIndex\<close>
  panics when a string is not assignable to the key type of the map.
\<close>

function setValue :: "string \<Rightarrow> gval \<Rightarrow> dyn \<Rightarrow> gval sres"
  and setElems :: "string \<Rightarrow> gtype \<Rightarrow> dyn list \<Rightarrow> gval list sres"
  and setEntries :: "string \<Rightarrow> gtype \<Rightarrow> gtype \<Rightarrow> (gval \<times> gval) list \<Rightarrow> (string \<times> dyn) list \<Rightarrow> (gval \<times> gval) list sres"
  and setFields :: "string \<Rightarrow> (string \<times> dyn) list \<Rightarrow> (fieldInfo \<times> gval) list \<Rightarrow> (fieldInfo \<times> gval) list sres"
where
  "setValue key (VString s) value =
     (case value of
        DString str \<Rightarrow> Done (VString str)
      | _ \<Rightarrow> Failed (VString s) (ErrCannotConvert value ''string''))"
| "setValue key (VInt k i) value =
     (case value of
        DFloat64 v \<Rightarrow> Done (VInt k (wrapInt (intBits k) (float_to_int64 v)))
      | DInt64 v \<Rightarrow> Done (VInt k (wrapInt (intBits k) v))
      | _ \<Rightarrow> Failed (VInt k i) (ErrCannotConvert value ''int''))"
| "setValue key (VUint k i) value =
     (case value of
        DFloat64 v \<Rightarrow> Done (VUint k (wrapUint (uintBits k) (float_to_uint64 v)))
      | DInt64 v \<Rightarrow> Done (VUint k (wrapUint (uintBits k) (wrapUint 64 v)))
      | _ \<Rightarrow> Failed (VUint k i) (ErrCannotConvert value ''uint''))"
| "setValue key (VFloat k x) value =
     (case value of
        DFloat64 f \<Rightarrow> Done (VFloat k f)
      | _ \<Rightarrow> Failed (VFloat k x) (ErrCannotConvert value ''float''))"
| "setValue key (VBool x) value =
     (case value of
        DBool b \<Rightarrow> Done (VBool b)
      | _ \<Rightarrow> Failed (VBool x) (ErrCannotConvert value ''bool''))"
| "setValue key (VSlice t xs) value =
     (case value of
        DNil \<Rightarrow> Done (zero (TSlice t))
      | DSlice arr \<Rightarrow> sres_map (\<lambda>ys. VSlice t (Some ys)) (setElems key t arr)
      | _ \<Rightarrow> Failed (VSlice t xs) (ErrCannotConvert value ''slice''))"
| "setValue key (VMap kt t m) value =
     (case value of
        DNil \<Rightarrow> Done (zero (TMap kt t))
      | DMap obj \<Rightarrow> sres_map (\<lambda>ys. VMap kt t (Some ys)) (setEntries key kt t [] obj)
      | _ \<Rightarrow> Failed (VMap kt t m) (ErrCannotConvert value ''map''))"
| "setValue key (VStruct fs) value =
     (case value of
        DNil \<Rightarrow> Done (zero (typeOf (VStruct fs)))
      | DMap obj \<Rightarrow> sres_map VStruct (setFields key obj fs)
      | _ \<Rightarrow> Failed (VStruct fs) (ErrCannotConvert value ''struct''))"
| "setValue key (VTime tm) value =
     (case value of
        DNil \<Rightarrow> Done (zero TTime)
      | DMap obj \<Rightarrow> Done (VTime tm)
      | _ \<Rightarrow> Failed (VTime tm) (ErrCannotConvert value ''struct''))"
| "setValue key (VPtr t p) value =
     (if value = DNil then Done (zero (TPtr t))
      else sres_map (\<lambda>x. VPtr t (Some x))
             (setValue key (case p of None \<Rightarrow> zero t | Some x \<Rightarrow> x) value))"
| "setValue key (VInterface x) value =
     (if value = DNil then Done (zero TInterface) else Done (toInterface value))"
| "setValue key (VArray t xs) value = Failed (VArray t xs) (ErrUnsupportedType ''array'')"
| "setValue key (VUnsupported k) value = Failed (VUnsupported k) (ErrUnsupportedType k)"
| "setElems key t [] = Done []"
| "setElems key t (v # vs) =
     (case setValue key (zero t) v of
        Done x \<Rightarrow> sres_map ((#) x) (setElems key t vs)
      | Failed x e \<Rightarrow> Failed (x # map (\<lambda>_. zero t) vs) e
      | Panicked q \<Rightarrow> Panicked q)"
| "setEntries key kt t acc [] = Done acc"
| "setEntries key kt t acc (kv # rest) =
     (case setValue key (zero t) (snd kv) of
        Done x \<Rightarrow>
          (case mapKey kt (fst kv) of
             None \<Rightarrow> Panicked (PanicReflect ''reflect.Value.SetMapIndex: value of type string is not assignable to the key type'')
           | Some k \<Rightarrow> setEntries key kt t (acc @ [(k, x)]) rest)
      | Failed x e \<Rightarrow> Failed acc e
      | Panicked q \<Rightarrow> Panicked q)"
| "setFields key obj [] = Done []"
| "setFields key obj (fv # fs) =
     (if \<not> IsExported (fst fv) then sres_map ((#) fv) (setFields key obj fs)
      else if Tag_Get (fst fv) key = ''-'' then sres_map ((#) fv) (setFields key obj fs)
      else
        (case map_of obj (wireName key (fst fv)) of
           None \<Rightarrow> sres_map ((#) fv) (setFields key obj fs)
         | Some v \<Rightarrow>
             (case setValue key (snd fv) v of
                Done x \<Rightarrow> sres_map ((#) (fst fv, x)) (setFields key obj fs)
              | Failed x e \<Rightarrow> Failed ((fst fv, x) # fs) e
              | Panicked q \<Rightarrow> Panicked q)))"
  by pat_completeness auto
termination
  apply (relation "inv_image (less_than <*lex*> less_than <*lex*> less_than)
     (\<lambda>a. case a of
        Inl (Inl (key, rv, v)) \<Rightarrow> (size v, 1::nat, vdepth rv)
      | Inl (Inr (key, t, vs)) \<Rightarrow> (size (DSlice vs), 0, 0)
      | Inr (Inl (key, kt, t, acc, obj)) \<Rightarrow> (size (DMap obj), 0, 0)
      | Inr (Inr (key, obj, fs)) \<Rightarrow> (size (DMap obj), 0, length fs))")
  apply (auto simp: vdepth_zero size_map_of split: option.splits)
  done


definition json_setValue :: "gval \<Rightarrow> dyn \<Rightarrow> gval sres" where
  "json_setValue = setValue ''json''"

definition toml_setValue :: "gval \<Rightarrow> dyn \<Rightarrow> gval sres" where
  "toml_setValue = setValue ''toml''"

text \<open>
  The part of \<^verbatim>\<open>Unmarshal\<close> after parsing, the same in both packages: \<^verbatim>\<open>v\<close> must hold a
  pointer; \<^verbatim>\<open>rv.Elem()\<close> of a nil pointer is the invalid \<^verbatim>\<open>Value\<close>, for which
  \<^verbatim>\<open>setValue\<close> takes its \<^verbatim>\<open>default\<close> branch.  The result is \<^verbatim>\<open>v\<close> after the call.
\<close>

definition decodeInto :: "string \<Rightarrow> gval \<Rightarrow> dyn \<Rightarrow> gval sres" where
  "decodeInto key v value =
     (case reflect_ValueOf v of
        Some (VPtr t p) \<Rightarrow>
          (case p of
             None \<Rightarrow> Failed v (ErrUnsupportedType ''invalid'')
           | Some x \<Rightarrow> sres_map (\<lambda>y. VPtr t (Some y)) (setValue key x value))
      | _ \<Rightarrow> Failed v ErrMustBePointer)"

text \<open>\<^verbatim>\<open>func (s *TOMLSerializer) Unmarshal(data []byte, v any) error\<close>.\<close>

definition toml_Unmarshal :: "string \<Rightarrow> gval \<Rightarrow> gval sres option" where
  "toml_Unmarshal data v =
     (case toml_parse data of
        None \<Rightarrow> None
      | Some (Error e) \<Rightarrow> Some (Failed v e)
      | Some (Panic q) \<Rightarrow> Some (Panicked q)
      | Some (Ok table) \<Rightarrow> Some (decodeInto ''toml'' v (DMap table)))"

section \<open>The JSON lexer (package json)\<close>

datatype json_tokenType =
    json_tokenEOF | json_tokenString | json_tokenNumber | json_tokenTrue | json_tokenFalse
  | json_tokenNull | json_tokenLeftBrace | json_tokenRightBrace | json_tokenLeftBracket
  | json_tokenRightBracket | json_tokenComma | json_tokenColon

record json_token =
  j_typ :: json_tokenType
  j_value :: string

record json_lexer =
  j_input :: string
  j_pos :: nat

definition json_newLexer :: "string \<Rightarrow> json_lexer" where
  "json_newLexer inp = \<lparr>j_input = inp, j_pos = 0\<rparr>"

definition json_tok :: "json_tokenType \<Rightarrow> string \<Rightarrow> json_token" where
  "json_tok ty v = \<lparr>j_typ = ty, j_value = v\<rparr>"

function json_skipWhitespace :: "json_lexer \<Rightarrow> json_lexer" where
  "json_skipWhitespace l =
     (if j_pos l < length (j_input l) \<and> isSpace (j_input l ! j_pos l) then
        json_skipWhitespace (l\<lparr>j_pos := j_pos l + 1\<rparr>)
      else l)"
  by pat_completeness auto
termination
  by (relation "measure (\<lambda>l. length (j_input l) - j_pos l)") auto

declare json_skipWhitespace.simps [simp del]

text \<open>
  \<^verbatim>\<open>readString\<close>, after \<^verbatim>\<open>start := l.pos; l.pos++\<close>: the loop.  The token's text is what
  stands between the quotes, unchanged: no escape sequence is decoded.
\<close>

function json_readString_loop :: "nat \<Rightarrow> json_lexer \<Rightarrow> json_token \<times> json_lexer" where
  "json_readString_loop start l =
     (if j_pos l < length (j_input l) then
        (if j_input l ! j_pos l = CHR 0x22 \<and> j_input l ! (j_pos l - 1) \<noteq> CHR 0x5C then
           (json_tok json_tokenString (slice (j_input l) (start + 1) (j_pos l + 1 - 1)),
            l\<lparr>j_pos := j_pos l + 1\<rparr>)
         else json_readString_loop start (l\<lparr>j_pos := j_pos l + 1\<rparr>))
      else (json_tok json_tokenEOF [], l))"
  by pat_completeness auto
termination
  by (relation "measure (\<lambda>(start, l). length (j_input l) - j_pos l)") auto

declare json_readString_loop.simps [simp del]

definition json_readString :: "json_lexer \<Rightarrow> json_token \<times> json_lexer" where
  "json_readString l = json_readString_loop (j_pos l) (l\<lparr>j_pos := j_pos l + 1\<rparr>)"

definition numberByte :: "char \<Rightarrow> bool" where
  "numberByte c = (isDigit c \<or> c = CHR ''.'' \<or> c = CHR ''-'' \<or> c = CHR ''e'' \<or> c = CHR ''E'' \<or> c = CHR ''+'')"

function json_readNumber_loop :: "nat \<Rightarrow> json_lexer \<Rightarrow> json_token \<times> json_lexer" where
  "json_readNumber_loop start l =
     (if j_pos l < length (j_input l) then
        (if \<not> numberByte (j_input l ! j_pos l) then
           (json_tok json_tokenNumber (slice (j_input l) start (j_pos l)), l)
         else json_readNumber_loop start (l\<lparr>j_pos := j_pos l + 1\<rparr>))
      else (json_tok json_tokenNumber (slice (j_input l) start (j_pos l)), l))"
  by pat_completeness auto
termination
  by (relation "measure (\<lambda>(start, l). length (j_input l) - j_pos l)") auto

declare json_readNumber_loop.simps [simp del]

definition json_readNumber :: "json_lexer \<Rightarrow> json_token \<times> json_lexer" where
  "json_readNumber l = json_readNumber_loop (j_pos l) l"

text \<open>The code of \<^verbatim>\<open>next\<close> after its \<^verbatim>\<open>switch\<close>.\<close>

definition json_next_rest :: "json_lexer \<Rightarrow> json_token \<times> json_lexer" where
  "json_next_rest l =
     (if j_input l ! j_pos l = CHR ''-'' \<or> isDigit (j_input l ! j_pos l) then json_readNumber l
      else (json_tok json_tokenEOF [], l))"

definition json_advance :: "nat \<Rightarrow> json_lexer \<Rightarrow> json_lexer" where
  "json_advance n l = l\<lparr>j_pos := j_pos l + n\<rparr>"

definition json_lexer_next :: "json_lexer \<Rightarrow> json_token \<times> json_lexer" where
  "json_lexer_next l0 =
     (let l = json_skipWhitespace l0 in
      if j_pos l \<ge> length (j_input l) then (json_tok json_tokenEOF [], l)
      else
        (let c = j_input l ! j_pos l in
         if c = CHR 0x7B then (json_tok json_tokenLeftBrace [CHR 0x7B], json_advance 1 l)
         else if c = CHR 0x7D then (json_tok json_tokenRightBrace [CHR 0x7D], json_advance 1 l)
         else if c = CHR ''['' then (json_tok json_tokenLeftBracket ''['', json_advance 1 l)
         else if c = CHR '']'' then (json_tok json_tokenRightBracket '']'', json_advance 1 l)
         else if c = CHR '','' then (json_tok json_tokenComma '','', json_advance 1 l)
         else if c = CHR '':'' then (json_tok json_tokenColon '':'', json_advance 1 l)
         else if c = CHR 0x22 then json_readString l
         else if c = CHR ''t'' then
           (if j_pos l + 3 < length (j_input l) \<and> slice (j_input l) (j_pos l) (j_pos l + 4) = ''true''
            then (json_tok json_tokenTrue ''true'', json_advance 4 l)
            else json_next_rest l)
         else if c = CHR ''f'' then
           (if j_pos l + 4 < length (j_input l) \<and> slice (j_input l) (j_pos l) (j_pos l + 5) = ''false''
            then (json_tok json_tokenFalse ''false'', json_advance 5 l)
            else json_next_rest l)
         else if c = CHR ''n'' then
           (if j_pos l + 3 < length (j_input l) \<and> slice (j_input l) (j_pos l) (j_pos l + 4) = ''null''
            then (json_tok json_tokenNull ''null'', json_advance 4 l)
            else json_next_rest l)
         else json_next_rest l))"

section \<open>The JSON parser\<close>

record json_parser =
  j_lexer :: json_lexer
  j_token :: json_token

definition json_newParser :: "string \<Rightarrow> json_parser" where
  "json_newParser inp =
     \<lparr>j_lexer = snd (json_lexer_next (json_newLexer inp)),
      j_token = fst (json_lexer_next (json_newLexer inp))\<rparr>"

definition json_parser_next :: "json_parser \<Rightarrow> json_parser" where
  "json_parser_next p =
     \<lparr>j_lexer = snd (json_lexer_next (j_lexer p)), j_token = fst (json_lexer_next (j_lexer p))\<rparr>"

fun json_typ_code :: "json_tokenType \<Rightarrow> nat" where
  "json_typ_code json_tokenEOF = 0"
| "json_typ_code json_tokenString = 1"
| "json_typ_code json_tokenNumber = 2"
| "json_typ_code json_tokenTrue = 3"
| "json_typ_code json_tokenFalse = 4"
| "json_typ_code json_tokenNull = 5"
| "json_typ_code json_tokenLeftBrace = 6"
| "json_typ_code json_tokenRightBrace = 7"
| "json_typ_code json_tokenLeftBracket = 8"
| "json_typ_code json_tokenRightBracket = 9"
| "json_typ_code json_tokenComma = 10"
| "json_typ_code json_tokenColon = 11"

definition json_err :: "(nat \<Rightarrow> string \<Rightarrow> error) \<Rightarrow> json_parser \<Rightarrow> 'a ret" where
  "json_err mk p = Error (mk (json_typ_code (j_typ (j_token p))) (j_value (j_token p)))"

text \<open>
  \<^verbatim>\<open>parseValue\<close>, and the loops of \<^verbatim>\<open>parseObject\<close> and \<^verbatim>\<open>parseArray\<close> with the object and
  the array built so far.  The first argument is fuel, as in the TOML parser.
\<close>

fun json_parseValue :: "nat \<Rightarrow> json_parser \<Rightarrow> (dyn \<times> json_parser) ret option"
  and json_parseObject_loop :: "nat \<Rightarrow> (string \<times> dyn) list \<Rightarrow> json_parser \<Rightarrow> (dyn \<times> json_parser) ret option"
  and json_parseArray_loop :: "nat \<Rightarrow> dyn list \<Rightarrow> json_parser \<Rightarrow> (dyn \<times> json_parser) ret option"
where
  "json_parseValue 0 p = None"
| "json_parseValue (Suc n) p =
     (case j_typ (j_token p) of
        json_tokenString \<Rightarrow> Some (Ok (DString (j_value (j_token p)), json_parser_next p))
      | json_tokenNumber \<Rightarrow>
          (if containsByte (j_value (j_token p)) CHR ''.'' then
             (case ParseFloat (j_value (j_token p)) of
                Inl e \<Rightarrow> Some (Error (ErrNum ''ParseFloat'' (j_value (j_token p)) e))
              | Inr f \<Rightarrow> Some (Ok (DFloat64 f, json_parser_next p)))
           else
             (case ParseInt (j_value (j_token p)) of
                Inl e \<Rightarrow> Some (Error (ErrNum ''ParseInt'' (j_value (j_token p)) e))
              | Inr i \<Rightarrow> Some (Ok (DInt64 i, json_parser_next p))))
      | json_tokenTrue \<Rightarrow> Some (Ok (DBool True, json_parser_next p))
      | json_tokenFalse \<Rightarrow> Some (Ok (DBool False, json_parser_next p))
      | json_tokenNull \<Rightarrow> Some (Ok (DNil, json_parser_next p))
      | json_tokenLeftBrace \<Rightarrow>
          (if j_typ (j_token (json_parser_next p)) = json_tokenRightBrace then
             Some (Ok (DMap [], json_parser_next (json_parser_next p)))
           else json_parseObject_loop n [] (json_parser_next p))
      | json_tokenLeftBracket \<Rightarrow>
          (if j_typ (j_token (json_parser_next p)) = json_tokenRightBracket then
             Some (Ok (DSlice [], json_parser_next (json_parser_next p)))
           else json_parseArray_loop n [] (json_parser_next p))
      | _ \<Rightarrow> Some (json_err ErrUnexpectedToken p))"
| "json_parseObject_loop 0 obj p = None"
| "json_parseObject_loop (Suc n) obj p =
     (if j_typ (j_token p) \<noteq> json_tokenString then Some (json_err ErrExpectedStringKey p)
      else if j_typ (j_token (json_parser_next p)) \<noteq> json_tokenColon then
        Some (json_err ErrExpectedColon (json_parser_next p))
      else
        (case json_parseValue n (json_parser_next (json_parser_next p)) of
           None \<Rightarrow> None
         | Some (Error e) \<Rightarrow> Some (Error e)
         | Some (Panic q) \<Rightarrow> Some (Panic q)
         | Some (Ok (v, p1)) \<Rightarrow>
             (if j_typ (j_token p1) = json_tokenRightBrace then
                Some (Ok (DMap (AList.update (j_value (j_token p)) v obj), json_parser_next p1))
              else if j_typ (j_token p1) \<noteq> json_tokenComma then
                Some (json_err ErrExpectedCommaOrRBrace p1)
              else json_parseObject_loop n (AList.update (j_value (j_token p)) v obj)
                     (json_parser_next p1))))"
| "json_parseArray_loop 0 arr p = None"
| "json_parseArray_loop (Suc n) arr p =
     (case json_parseValue n p of
        None \<Rightarrow> None
      | Some (Error e) \<Rightarrow> Some (Error e)
      | Some (Panic q) \<Rightarrow> Some (Panic q)
      | Some (Ok (v, p1)) \<Rightarrow>
          (if j_typ (j_token p1) = json_tokenRightBracket then
             Some (Ok (DSlice (arr @ [v]), json_parser_next p1))
           else if j_typ (j_token p1) \<noteq> json_tokenComma then
             Some (json_err ErrExpectedCommaOrRBracket p1)
           else json_parseArray_loop n (arr @ [v]) (json_parser_next p1)))"

text \<open>
  The first two statements of \<^verbatim>\<open>Unmarshal\<close>: a fresh parser and one call of
  \<^verbatim>\<open>parseValue\<close>.  The parser that \<^verbatim>\<open>parseValue\<close> leaves behind is dropped.
\<close>

definition json_parse :: "string \<Rightarrow> dyn ret option" where
  "json_parse data =
     (case json_parseValue (2 * length data + 3) (json_newParser data) of
        None \<Rightarrow> None
      | Some (Ok (v, p)) \<Rightarrow> Some (Ok v)
      | Some (Error e) \<Rightarrow> Some (Error e)
      | Some (Panic q) \<Rightarrow> Some (Panic q))"

text \<open>\<^verbatim>\<open>func (s *JSONSerializer) Unmarshal(data []byte, v any) error\<close>.\<close>

definition json_Unmarshal :: "string \<Rightarrow> gval \<Rightarrow> gval sres option" where
  "json_Unmarshal data v =
     (case json_parse data of
        None \<Rightarrow> None
      | Some (Error e) \<Rightarrow> Some (Failed v e)
      | Some (Panic q) \<Rightarrow> Some (Panicked q)
      | Some (Ok value) \<Rightarrow> Some (decodeInto ''json'' v value))"

section \<open>Encoding\<close>

text \<open>
  \<^verbatim>\<open>escapeString\<close>: five calls of \<^verbatim>\<open>strings.ReplaceAll\<close> with a one-byte pattern, in the
  order of the source.
\<close>

definition ReplaceAll :: "string \<Rightarrow> char \<Rightarrow> string \<Rightarrow> string" where
  "ReplaceAll s old new = concat (map (\<lambda>c. if c = old then new else [c]) s)"

definition escapeString :: "string \<Rightarrow> string" where
  "escapeString s0 =
     (let s1 = ReplaceAll s0 (CHR 0x5C) [CHR 0x5C, CHR 0x5C];
          s2 = ReplaceAll s1 (CHR 0x22) [CHR 0x5C, CHR 0x22];
          s3 = ReplaceAll s2 (CHR 0x0A) [CHR 0x5C, CHR ''n''];
          s4 = ReplaceAll s3 (CHR 0x0D) [CHR 0x5C, CHR ''r''];
          s5 = ReplaceAll s4 (CHR 0x09) [CHR 0x5C, CHR ''t'']
      in s5)"

definition digitChar :: "int \<Rightarrow> char" where
  "digitChar d = ''0123456789'' ! nat d"

function digitsOf :: "int \<Rightarrow> string" where
  "digitsOf n = (if n < 10 then [digitChar n] else digitsOf (n div 10) @ [digitChar (n mod 10)])"
  by pat_completeness auto
termination
  by (relation "measure nat") auto

declare digitsOf.simps [simp del]

text \<open>\<^verbatim>\<open>strconv.FormatInt(i, 10)\<close>; \<^verbatim>\<open>strconv.FormatUint(u, 10)\<close> is the same on \<open>u \<ge> 0\<close>.\<close>

definition FormatInt :: "int \<Rightarrow> string" where
  "FormatInt i = (if i < 0 then CHR ''-'' # digitsOf (- i) else digitsOf i)"

text \<open>
  \<^verbatim>\<open>strconv.FormatFloat(f, 'f', -1, 64)\<close>: the shortest decimal that denotes \<open>f\<close>, without
  an exponent.  The shortest decimal of a \<^verbatim>\<open>float64\<close> has fewer than 1100 digits after
  the point, which bounds the loop.
\<close>

function fracDigits :: "nat \<Rightarrow> rat \<Rightarrow> string" where
  "fracDigits n r =
     (if n = 0 \<or> r = 0 then []
      else digitChar \<lfloor>r * 10\<rfloor> # fracDigits (n - 1) (r * 10 - of_int \<lfloor>r * 10\<rfloor>))"
  by pat_completeness auto
termination
  by (relation "measure (\<lambda>(n, r). n)") auto

declare fracDigits.simps [simp del]

definition FormatFloat :: "rat \<Rightarrow> string" where
  "FormatFloat f =
     (let a = \<bar>f\<bar>;
          body = digitsOf \<lfloor>a\<rfloor>
                 @ (if a = of_int \<lfloor>a\<rfloor> then [] else CHR ''.'' # fracDigits 1100 (a - of_int \<lfloor>a\<rfloor>))
      in if f < 0 then CHR ''-'' # body else body)"

definition FormatBool :: "bool \<Rightarrow> string" where
  "FormatBool b = (if b then ''true'' else ''false'')"

definition pad :: "nat \<Rightarrow> int \<Rightarrow> string" where
  "pad w n = replicate (w - length (digitsOf n)) CHR ''0'' @ digitsOf n"

text \<open>\<^verbatim>\<open>t.Format(time.RFC3339)\<close>: whole seconds, and \<^verbatim>\<open>Z\<close> for the offset zero.\<close>

definition time_Format_RFC3339 :: "gotime \<Rightarrow> string" where
  "time_Format_RFC3339 t =
     pad 4 (int (tm_year t)) @ ''-'' @ pad 2 (int (tm_month t)) @ ''-'' @ pad 2 (int (tm_day t))
     @ ''T'' @ pad 2 (int (tm_hour t)) @ '':'' @ pad 2 (int (tm_minute t)) @ '':''
     @ pad 2 (int (tm_second t))
     @ (if tm_offset t = 0 then ''Z''
        else (if tm_offset t < 0 then ''-'' else ''+'')
             @ pad 2 (\<bar>tm_offset t\<bar> div 3600) @ '':'' @ pad 2 (\<bar>tm_offset t\<bar> div 60 mod 60))"

lemma size_list_pairs:
  "size_list (\<lambda>kv. size (fst kv) + size (snd kv)) m \<le> size_list (size_prod size size) (m :: (gval \<times> gval) list)"
  by (induction m) auto

lemma size_list_fields:
  "size_list (\<lambda>fv. size (snd fv)) fs \<le> size_list (size_prod (\<lambda>x. 0) size) (fs :: (fieldInfo \<times> gval) list)"
  by (induction fs) auto

text \<open>
  \<^verbatim>\<open>marshalValue\<close> of package json; \<open>json_marshalElems\<close>, \<open>json_marshalPairs\<close> and
  \<open>json_marshalFields\<close> are the loops of \<^verbatim>\<open>marshalArray\<close>, \<^verbatim>\<open>marshalMap\<close> and
  \<^verbatim>\<open>marshalStruct\<close>, which collect the strings that are joined afterwards.
  \<^verbatim>\<open>marshalArray\<close> starts with \<^verbatim>\<open>v.IsNil()\<close>, which panics on a value of kind
  \<^verbatim>\<open>reflect.Array\<close>.
\<close>

function (sequential) json_marshalValue :: "gval \<Rightarrow> string ret"
  and json_marshalElems :: "gval list \<Rightarrow> string list ret"
  and json_marshalPairs :: "(gval \<times> gval) list \<Rightarrow> string list ret"
  and json_marshalFields :: "(fieldInfo \<times> gval) list \<Rightarrow> string list ret"
where
  "json_marshalValue (VString s) = Ok ([CHR 0x22] @ escapeString s @ [CHR 0x22])"
| "json_marshalValue (VInt k i) = Ok (FormatInt i)"
| "json_marshalValue (VUint k u) = Ok (FormatInt u)"
| "json_marshalValue (VFloat k f) = Ok (FormatFloat f)"
| "json_marshalValue (VBool b) = Ok (FormatBool b)"
| "json_marshalValue (VSlice t None) = Ok ''null''"
| "json_marshalValue (VSlice t (Some xs)) =
     (case json_marshalElems xs of
        Ok elements \<Rightarrow> Ok (''['' @ Join elements '','' @ '']'')
      | Error e \<Rightarrow> Error e
      | Panic q \<Rightarrow> Panic q)"
| "json_marshalValue (VArray t xs) =
     Panic (PanicReflect ''reflect: call of reflect.Value.IsNil on array Value'')"
| "json_marshalValue (VMap kt t None) = Ok ''null''"
| "json_marshalValue (VMap kt t (Some m)) =
     (case json_marshalPairs m of
        Ok pairs \<Rightarrow> Ok ([CHR 0x7B] @ Join pairs '','' @ [CHR 0x7D])
      | Error e \<Rightarrow> Error e
      | Panic q \<Rightarrow> Panic q)"
| "json_marshalValue (VStruct fs) =
     (case json_marshalFields fs of
        Ok pairs \<Rightarrow> Ok ([CHR 0x7B] @ Join pairs '','' @ [CHR 0x7D])
      | Error e \<Rightarrow> Error e
      | Panic q \<Rightarrow> Panic q)"
| "json_marshalValue (VTime t) = Ok [CHR 0x7B, CHR 0x7D]"
| "json_marshalValue (VPtr t None) = Ok ''null''"
| "json_marshalValue (VPtr t (Some x)) = json_marshalValue x"
| "json_marshalValue (VInterface None) = Ok ''null''"
| "json_marshalValue (VInterface (Some x)) = json_marshalValue x"
| "json_marshalValue (VUnsupported k) = Error (ErrUnsupportedType k)"
| "json_marshalElems [] = Ok []"
| "json_marshalElems (x # xs) =
     (case json_marshalValue x of
        Ok element \<Rightarrow>
          (case json_marshalElems xs of
             Ok elements \<Rightarrow> Ok (element # elements)
           | Error e \<Rightarrow> Error e
           | Panic q \<Rightarrow> Panic q)
      | Error e \<Rightarrow> Error e
      | Panic q \<Rightarrow> Panic q)"
| "json_marshalPairs [] = Ok []"
| "json_marshalPairs ((key, value) # m) =
     (case json_marshalValue key of
        Ok keyBytes \<Rightarrow>
          (case json_marshalValue value of
             Ok valueBytes \<Rightarrow>
               (case json_marshalPairs m of
                  Ok pairs \<Rightarrow> Ok ((keyBytes @ '':'' @ valueBytes) # pairs)
                | Error e \<Rightarrow> Error e
                | Panic q \<Rightarrow> Panic q)
           | Error e \<Rightarrow> Error e
           | Panic q \<Rightarrow> Panic q)
      | Error e \<Rightarrow> Error e
      | Panic q \<Rightarrow> Panic q)"
| "json_marshalFields [] = Ok []"
| "json_marshalFields ((field, value) # fs) =
     (if \<not> IsExported field then json_marshalFields fs
      else if Tag_Get field ''json'' = ''-'' then json_marshalFields fs
      else
        (case json_marshalValue value of
           Ok valueBytes \<Rightarrow>
             (case json_marshalFields fs of
                Ok pairs \<Rightarrow>
                  Ok (([CHR 0x22] @ wireName ''json'' field @ [CHR 0x22] @ '':'' @ valueBytes) # pairs)
              | Error e \<Rightarrow> Error e
              | Panic q \<Rightarrow> Panic q)
         | Error e \<Rightarrow> Error e
         | Panic q \<Rightarrow> Panic q))"
  by pat_completeness auto
termination
  by (relation "measure (\<lambda>a. case a of
        Inl (Inl v) \<Rightarrow> size v
      | Inl (Inr xs) \<Rightarrow> size_list size xs
      | Inr (Inl m) \<Rightarrow> size_list (\<lambda>kv. size (fst kv) + size (snd kv)) m
      | Inr (Inr fs) \<Rightarrow> size_list (\<lambda>fv. size (snd fv)) fs)")
     (auto simp: less_Suc_eq_le size_list_pairs size_list_fields le_SucI)

text \<open>\<^verbatim>\<open>func (s *JSONSerializer) Marshal(v any) ([]byte, error)\<close>; the invalid \<^verbatim>\<open>Value\<close> of a nil
  interface is the case \<^verbatim>\<open>reflect.Invalid\<close> of \<^verbatim>\<open>marshalValue\<close>.\<close>

definition json_Marshal :: "gval \<Rightarrow> string ret" where
  "json_Marshal v = (case reflect_ValueOf v of None \<Rightarrow> Ok ''null'' | Some x \<Rightarrow> json_marshalValue x)"

text \<open>
  \<^verbatim>\<open>marshalValue\<close> of package toml, with the prefix of dotted keys.  \<^verbatim>\<open>key.String()\<close> of a
  map key that is not a string is a placeholder built from the name of its type, which
  the model abbreviates to the name of its kind.
\<close>

definition keyString :: "gval \<Rightarrow> string" where
  "keyString k = (case k of VString s \<Rightarrow> s | _ \<Rightarrow> ''<'' @ kindName k @ '' Value>'')"

definition dotted :: "string \<Rightarrow> string \<Rightarrow> string" where
  "dotted prefix name = (if prefix \<noteq> [] then prefix @ ''.'' @ name else name)"

function (sequential) toml_marshalValue :: "gval \<Rightarrow> string \<Rightarrow> string ret"
  and toml_marshalElems :: "gval list \<Rightarrow> string list ret"
  and toml_marshalPairs :: "(gval \<times> gval) list \<Rightarrow> string \<Rightarrow> string list ret"
  and toml_marshalFields :: "(fieldInfo \<times> gval) list \<Rightarrow> string \<Rightarrow> string list ret"
where
  "toml_marshalValue (VString s) prefix = Ok ([CHR 0x22] @ escapeString s @ [CHR 0x22])"
| "toml_marshalValue (VInt k i) prefix = Ok (FormatInt i)"
| "toml_marshalValue (VUint k u) prefix = Ok (FormatInt u)"
| "toml_marshalValue (VFloat k f) prefix = Ok (FormatFloat f)"
| "toml_marshalValue (VBool b) prefix = Ok (FormatBool b)"
| "toml_marshalValue (VSlice t None) prefix = Ok ''[]''"
| "toml_marshalValue (VSlice t (Some xs)) prefix =
     (case toml_marshalElems xs of
        Ok elements \<Rightarrow> Ok (''['' @ Join elements '', '' @ '']'')
      | Error e \<Rightarrow> Error e
      | Panic q \<Rightarrow> Panic q)"
| "toml_marshalValue (VArray t xs) prefix =
     Panic (PanicReflect ''reflect: call of reflect.Value.IsNil on array Value'')"
| "toml_marshalValue (VMap kt t None) prefix = Ok [CHR 0x7B, CHR 0x7D]"
| "toml_marshalValue (VMap kt t (Some m)) prefix =
     (case toml_marshalPairs m prefix of
        Ok pairs \<Rightarrow> Ok (Join pairs [CHR 0x0A])
      | Error e \<Rightarrow> Error e
      | Panic q \<Rightarrow> Panic q)"
| "toml_marshalValue (VStruct fs) prefix =
     (case toml_marshalFields fs prefix of
        Ok pairs \<Rightarrow> Ok (Join pairs [CHR 0x0A])
      | Error e \<Rightarrow> Error e
      | Panic q \<Rightarrow> Panic q)"
| "toml_marshalValue (VTime t) prefix = Ok (time_Format_RFC3339 t)"
| "toml_marshalValue (VPtr t None) prefix = Ok ''null''"
| "toml_marshalValue (VPtr t (Some x)) prefix = toml_marshalValue x prefix"
| "toml_marshalValue (VInterface None) prefix = Ok ''null''"
| "toml_marshalValue (VInterface (Some x)) prefix = toml_marshalValue x prefix"
| "toml_marshalValue (VUnsupported k) prefix = Error (ErrUnsupportedType k)"
| "toml_marshalElems [] = Ok []"
| "toml_marshalElems (x # xs) =
     (case toml_marshalValue x [] of
        Ok element \<Rightarrow>
          (case toml_marshalElems xs of
             Ok elements \<Rightarrow> Ok (element # elements)
           | Error e \<Rightarrow> Error e
           | Panic q \<Rightarrow> Panic q)
      | Error e \<Rightarrow> Error e
      | Panic q \<Rightarrow> Panic q)"
| "toml_marshalPairs [] prefix = Ok []"
| "toml_marshalPairs ((key, value) # m) prefix =
     (case toml_marshalValue value (dotted prefix (keyString key)) of
        Ok valueBytes \<Rightarrow>
          (case toml_marshalPairs m prefix of
             Ok pairs \<Rightarrow> Ok ((dotted prefix (keyString key) @ '' = '' @ valueBytes) # pairs)
           | Error e \<Rightarrow> Error e
           | Panic q \<Rightarrow> Panic q)
      | Error e \<Rightarrow> Error e
      | Panic q \<Rightarrow> Panic q)"
| "toml_marshalFields [] prefix = Ok []"
| "toml_marshalFields ((field, value) # fs) prefix =
     (if \<not> IsExported field then toml_marshalFields fs prefix
      else if Tag_Get field ''toml'' = ''-'' then toml_marshalFields fs prefix
      else
        (case toml_marshalValue value (dotted prefix (wireName ''toml'' field)) of
           Ok valueBytes \<Rightarrow>
             (case toml_marshalFields fs prefix of
                Ok pairs \<Rightarrow>
                  Ok ((dotted prefix (wireName ''toml'' field) @ '' = '' @ valueBytes) # pairs)
              | Error e \<Rightarrow> Error e
              | Panic q \<Rightarrow> Panic q)
         | Error e \<Rightarrow> Error e
         | Panic q \<Rightarrow> Panic q))"
  by pat_completeness auto
termination
  by (relation "measure (\<lambda>a. case a of
        Inl (Inl (v, prefix)) \<Rightarrow> size v
      | Inl (Inr xs) \<Rightarrow> size_list size xs
      | Inr (Inl (m, prefix)) \<Rightarrow> size_list (\<lambda>kv. size (fst kv) + size (snd kv)) m
      | Inr (Inr (fs, prefix)) \<Rightarrow> size_list (\<lambda>fv. size (snd fv)) fs)")
     (auto simp: less_Suc_eq_le size_list_pairs size_list_fields le_SucI)

definition toml_Marshal :: "gval \<Rightarrow> string ret" where
  "toml_Marshal v = (case reflect_ValueOf v of None \<Rightarrow> Ok ''null'' | Some x \<Rightarrow> toml_marshalValue x [])"

section \<open>Notions used in the statements\<close>

text \<open>What is in the destination after a call that returned (with or without an error).\<close>

fun sres_state :: "'a sres \<Rightarrow> 'a option" where
  "sres_state (Done x) = Some x"
| "sres_state (Failed x e) = Some x"
| "sres_state (Panicked q) = None"


text \<open>
  A parser whose cursor is within the input, and the measure of what it has left: the
  bytes after the cursor, and one for a current token that is not the end of input.
\<close>

definition json_wf :: "json_parser \<Rightarrow> bool" where
  "json_wf p = (j_pos (j_lexer p) \<le> length (j_input (j_lexer p)))"

definition json_left :: "json_parser \<Rightarrow> nat" where
  "json_left p =
     length (j_input (j_lexer p)) - j_pos (j_lexer p)
     + (if j_typ (j_token p) = json_tokenEOF then 0 else 1)"

text \<open>A call that returns a value leaves a parser within the input that has less left.\<close>

definition json_progress :: "json_parser \<Rightarrow> (dyn \<times> json_parser) ret \<Rightarrow> bool" where
  "json_progress p r =
     (case r of Ok (v, p1) \<Rightarrow> json_wf p1 \<and> json_left p1 < json_left p
      | _ \<Rightarrow> True)"

text \<open>The same notions for the TOML parser.\<close>

definition toml_wf :: "toml_parser \<Rightarrow> bool" where
  "toml_wf p = (t_pos (t_lexer p) \<le> length (t_input (t_lexer p)))"

definition toml_left :: "toml_parser \<Rightarrow> nat" where
  "toml_left p =
     length (t_input (t_lexer p)) - t_pos (t_lexer p)
     + (if t_typ (t_token p) = toml_tokenEOF then 0 else 1)"

definition toml_progress :: "toml_parser \<Rightarrow> (dyn \<times> toml_parser) ret \<Rightarrow> bool" where
  "toml_progress p r =
     (case r of Ok (v, p1) \<Rightarrow> toml_wf p1 \<and> toml_left p1 < toml_left p
      | _ \<Rightarrow> True)"

text \<open>
  The parser \<open>p\<close> put on the input extended by \<open>t\<close>; a cut between \<open>p\<close> and \<open>t\<close> that does
  not run through a number (a number token takes every byte that may occur in a number);
  and the relation that a run on \<open>p @ t\<close> keeps to the run on \<open>p\<close>: the same parser on the
  longer input for as long as the run on \<open>p\<close> has not reached the end of \<open>p\<close>.
\<close>

definition json_ext :: "string \<Rightarrow> json_parser \<Rightarrow> json_parser" where
  "json_ext t p = p\<lparr>j_lexer := (j_lexer p)\<lparr>j_input := j_input (j_lexer p) @ t\<rparr>\<rparr>"

definition clean_cut :: "string \<Rightarrow> string \<Rightarrow> bool" where
  "clean_cut p t = (t = [] \<or> \<not> numberByte (hd t) \<or> (p \<noteq> [] \<and> \<not> numberByte (last p)))"

definition json_follows :: "string \<Rightarrow> string \<Rightarrow> json_parser \<Rightarrow> json_parser \<Rightarrow> bool" where
  "json_follows p t p1 q1 =
     (j_input (j_lexer p1) = p \<and> (j_typ (j_token p1) \<noteq> json_tokenEOF \<longrightarrow> q1 = json_ext t p1))"

text \<open>A pointer to a \<^verbatim>\<open>[]int\<close> variable holding \<open>xs\<close>.\<close>

definition ptrInts :: "gval list option \<Rightarrow> gval" where
  "ptrInts xs = VPtr (TSlice (TInt KInt)) (Some (VSlice (TInt KInt) xs))"

text \<open>A table none of whose values is a table.\<close>

definition flat :: "(string \<times> dyn) list \<Rightarrow> bool" where
  "flat tbl = (\<forall>k m. map_of tbl k \<noteq> Some (DMap m))"

text \<open>Struct fields and records for the concrete runs: exported fields without tags.\<close>

definition field_S :: fieldInfo where
  "field_S = \<lparr>f_Name = ''S'', f_PkgPath = [], f_Tag = []\<rparr>"

definition field_F :: fieldInfo where
  "field_F = \<lparr>f_Name = ''F'', f_PkgPath = [], f_Tag = []\<rparr>"



text \<open>\<^verbatim>\<open>struct { S string }\<close> and a pointer to a variable of that type holding \<open>s\<close>.\<close>

definition recS :: "string \<Rightarrow> gval" where
  "recS s = VStruct [(field_S, VString s)]"

definition ptrS :: "string \<Rightarrow> gval" where
  "ptrS s = VPtr (TStruct [(field_S, TString)]) (Some (recS s))"


text \<open>A pointer to an \<^verbatim>\<open>int\<close> variable holding \<open>i\<close>.\<close>

definition ptrInt :: "int \<Rightarrow> gval" where
  "ptrInt i = VPtr (TInt KInt) (Some (VInt KInt i))"

section \<open>Properties of the TOML lexer\<close>

lemma toml_skipWhitespace_stops:
  "t_pos (toml_skipWhitespace l) < length (t_input (toml_skipWhitespace l)) \<Longrightarrow>
   t_input (toml_skipWhitespace l) ! t_pos (toml_skipWhitespace l) \<noteq> CHR 0x0A"
proof (induction l rule: toml_skipWhitespace.induct)
  case (1 l)
  show ?case
  proof (cases "t_pos l < length (t_input l)")
    case False
    then show ?thesis using "1.prems" by (simp add: toml_skipWhitespace.simps [of l])
  next
    case inb: True
    show ?thesis
    proof (cases "t_input l ! t_pos l = CHR 0x0A")
      case True
      then show ?thesis
        using inb "1.IH"(1) "1.prems" by (simp add: toml_skipWhitespace.simps [of l])
    next
      case nl: False
      show ?thesis
      proof (cases "isSpace (t_input l ! t_pos l)")
        case True
        then show ?thesis
          using inb nl "1.IH"(2) "1.prems" by (simp add: toml_skipWhitespace.simps [of l])
      next
        case False
        then show ?thesis
          using inb nl by (simp add: toml_skipWhitespace.simps [of l])
      qed
    qed
  qed
qed

lemma toml_readString_loop_typ:
  "t_typ (fst (toml_readString_loop start l)) \<noteq> toml_tokenNewline"
  by (induction start l rule: toml_readString_loop.induct)
     (subst toml_readString_loop.simps, auto simp add: toml_tok_def)

lemma toml_readNumberOrDate_loop_typ:
  "t_typ (fst (toml_readNumberOrDate_loop start d l)) \<noteq> toml_tokenNewline"
  by (induction start d l rule: toml_readNumberOrDate_loop.induct)
     (subst toml_readNumberOrDate_loop.simps, auto simp add: toml_tok_def)

lemma toml_next_rest_typ: "t_typ (fst (toml_next_rest l)) \<noteq> toml_tokenNewline"
  by (simp add: toml_next_rest_def toml_readNumberOrDate_def toml_readNumberOrDate_loop_typ toml_tok_def)

text \<open>
  No call of \<^verbatim>\<open>next\<close> ever returns a newline token: \<^verbatim>\<open>skipWhitespace\<close> has consumed
  every newline before the \<^verbatim>\<open>switch\<close> looks at the current byte.
\<close>

lemma toml_lexer_next_never_newline:
  "t_typ (fst (toml_lexer_next l)) \<noteq> toml_tokenNewline"
  using toml_skipWhitespace_stops [of l]
  by (simp add: toml_lexer_next_def Let_def toml_tok_def toml_readString_def
        toml_readString_loop_typ toml_next_rest_typ)

text \<open>
  Claim C3: the lexer should skip only non-newline white space and return a newline of
  the input as a newline token.  On the one-byte input consisting of a newline the code
  skips the newline and returns the end-of-input token, with the cursor past the newline.
\<close>

theorem C3_newline_is_skipped:
  "toml_lexer_next (toml_newLexer [CHR 0x0A])
     = (\<lparr>t_typ = toml_tokenEOF, t_value = []\<rparr>, \<lparr>t_input = [CHR 0x0A], t_pos = 1, t_line = 2, t_col = 2\<rparr>)"
  by (simp add: toml_lexer_next_def toml_newLexer_def toml_tok_def Let_def toml_skipWhitespace.simps)

section \<open>Positions of the TOML lexer\<close>

lemma toml_skipWhitespace_input [simp]: "t_input (toml_skipWhitespace l) = t_input l"
  by (induction l rule: toml_skipWhitespace.induct) (subst toml_skipWhitespace.simps, simp)

lemma toml_skipWhitespace_pos: "t_pos l \<le> t_pos (toml_skipWhitespace l)"
  by (induction l rule: toml_skipWhitespace.induct) (subst toml_skipWhitespace.simps, auto)

lemma toml_skipWhitespace_bound:
  "t_pos l \<le> length (t_input l) \<Longrightarrow> t_pos (toml_skipWhitespace l) \<le> length (t_input l)"
  by (induction l rule: toml_skipWhitespace.induct) (subst toml_skipWhitespace.simps, auto)

lemma toml_readString_loop_input [simp]:
  "t_input (snd (toml_readString_loop start l)) = t_input l"
  by (induction start l rule: toml_readString_loop.induct)
     (subst toml_readString_loop.simps, simp)

lemma toml_readString_loop_pos:
  "t_pos l \<le> t_pos (snd (toml_readString_loop start l))"
  by (induction start l rule: toml_readString_loop.induct)
     (subst toml_readString_loop.simps, auto)

lemma toml_readString_loop_bound:
  "t_pos l \<le> length (t_input l) \<Longrightarrow> t_pos (snd (toml_readString_loop start l)) \<le> length (t_input l)"
  by (induction start l rule: toml_readString_loop.induct)
     (subst toml_readString_loop.simps, auto)

lemma toml_readNumberOrDate_loop_input [simp]:
  "t_input (snd (toml_readNumberOrDate_loop start d l)) = t_input l"
  by (induction start d l rule: toml_readNumberOrDate_loop.induct)
     (subst toml_readNumberOrDate_loop.simps, simp)

lemma toml_readNumberOrDate_loop_pos:
  "t_pos l \<le> t_pos (snd (toml_readNumberOrDate_loop start d l))"
  by (induction start d l rule: toml_readNumberOrDate_loop.induct)
     (subst toml_readNumberOrDate_loop.simps, auto)

lemma toml_readNumberOrDate_loop_bound:
  "t_pos l \<le> length (t_input l) \<Longrightarrow>
   t_pos (snd (toml_readNumberOrDate_loop start d l)) \<le> length (t_input l)"
  by (induction start d l rule: toml_readNumberOrDate_loop.induct)
     (subst toml_readNumberOrDate_loop.simps, auto)

lemma toml_readNumberOrDate_loop_advances:
  "t_pos l < length (t_input l) \<Longrightarrow>
   t_input l ! t_pos l = CHR ''-'' \<or> isDigit (t_input l ! t_pos l) \<Longrightarrow>
   t_pos l < t_pos (snd (toml_readNumberOrDate_loop start d l))"
  using toml_readNumberOrDate_loop_pos [of "l\<lparr>t_pos := t_pos l + 1, t_col := t_col l + 1\<rparr>" start True]
    toml_readNumberOrDate_loop_pos [of "l\<lparr>t_pos := t_pos l + 1, t_col := t_col l + 1\<rparr>" start d]
  by (subst toml_readNumberOrDate_loop.simps) (auto simp: Suc_le_eq)

lemma toml_lexer_next_input [simp]: "t_input (snd (toml_lexer_next l)) = t_input l"
  by (simp add: toml_lexer_next_def Let_def toml_advance_def toml_readString_def
      toml_next_rest_def toml_readNumberOrDate_def toml_tok_def)

lemma toml_lexer_next_bound:
  assumes "t_pos l \<le> length (t_input l)"
  shows "t_pos (snd (toml_lexer_next l)) \<le> length (t_input l)"
proof -
  let ?l = "toml_skipWhitespace l"
  have b: "t_pos ?l \<le> length (t_input l)"
    using assms by (rule toml_skipWhitespace_bound)
  have s: "t_pos (snd (toml_readString ?l)) \<le> length (t_input l)"
    if "t_pos ?l < length (t_input l)"
    using that toml_readString_loop_bound [of "?l\<lparr>t_pos := t_pos ?l + 1, t_col := t_col ?l + 1\<rparr>" "t_pos ?l"]
    by (simp add: toml_readString_def)
  have n: "t_pos (snd (toml_next_rest ?l)) \<le> length (t_input l)"
    using b toml_readNumberOrDate_loop_bound [of ?l "t_pos ?l" False]
    by (simp add: toml_next_rest_def toml_readNumberOrDate_def)
  show ?thesis
    using b s n by (auto simp: toml_lexer_next_def Let_def toml_advance_def)
qed

lemma toml_lexer_next_pos: "t_pos l \<le> t_pos (snd (toml_lexer_next l))"
proof -
  let ?l = "toml_skipWhitespace l"
  have b: "t_pos l \<le> t_pos ?l"
    by (rule toml_skipWhitespace_pos)
  have s: "t_pos ?l \<le> t_pos (snd (toml_readString ?l))"
    using toml_readString_loop_pos [of "?l\<lparr>t_pos := t_pos ?l + 1, t_col := t_col ?l + 1\<rparr>" "t_pos ?l"]
    by (simp add: toml_readString_def)
  have n: "t_pos ?l \<le> t_pos (snd (toml_next_rest ?l))"
    using toml_readNumberOrDate_loop_pos [of ?l "t_pos ?l" False]
    by (simp add: toml_next_rest_def toml_readNumberOrDate_def)
  show ?thesis
    using b s n by (auto simp: toml_lexer_next_def Let_def toml_advance_def)
qed

lemma toml_lexer_next_advances:
  assumes "t_typ (fst (toml_lexer_next l)) \<noteq> toml_tokenEOF"
  shows "t_pos l < t_pos (snd (toml_lexer_next l))"
proof -
  let ?l = "toml_skipWhitespace l"
  have b: "t_pos l \<le> t_pos ?l"
    by (rule toml_skipWhitespace_pos)
  have inb: "t_pos ?l < length (t_input ?l)"
    using assms by (auto simp: toml_lexer_next_def Let_def toml_tok_def split: if_splits)
  have s: "t_pos ?l < t_pos (snd (toml_readString ?l))"
    using toml_readString_loop_pos [of "?l\<lparr>t_pos := t_pos ?l + 1, t_col := t_col ?l + 1\<rparr>" "t_pos ?l"]
    by (simp add: toml_readString_def)
  have n: "t_pos ?l < t_pos (snd (toml_next_rest ?l))"
    if "t_typ (fst (toml_next_rest ?l)) \<noteq> toml_tokenEOF"
    using that inb toml_readNumberOrDate_loop_advances [of ?l "t_pos ?l" False]
    by (auto simp: toml_next_rest_def toml_readNumberOrDate_def toml_tok_def split: if_splits)
  show ?thesis
    using assms b s n inb
    by (auto simp: toml_lexer_next_def Let_def toml_advance_def split: if_splits)
qed

section \<open>The TOML parser returns\<close>

lemma toml_parser_next_wf: "toml_wf p \<Longrightarrow> toml_wf (toml_parser_next p)"
  using toml_lexer_next_bound [of "t_lexer p"] by (simp add: toml_wf_def toml_parser_next_def)

lemma toml_parser_next_left_le: "toml_wf p \<Longrightarrow> toml_left (toml_parser_next p) \<le> toml_left p"
  using toml_lexer_next_bound [of "t_lexer p"] toml_lexer_next_pos [of "t_lexer p"]
    toml_lexer_next_advances [of "t_lexer p"]
  by (auto simp: toml_wf_def toml_left_def toml_parser_next_def)

lemma toml_parser_next_left_less:
  "toml_wf p \<Longrightarrow> t_typ (t_token p) \<noteq> toml_tokenEOF \<Longrightarrow> toml_left (toml_parser_next p) < toml_left p"
  using toml_lexer_next_bound [of "t_lexer p"] toml_lexer_next_pos [of "t_lexer p"]
    toml_lexer_next_advances [of "t_lexer p"]
  by (auto simp: toml_wf_def toml_left_def toml_parser_next_def)

lemma toml_progress_simps [simp]:
  "toml_progress p (Ok (v, p1)) = (toml_wf p1 \<and> toml_left p1 < toml_left p)"
  "toml_progress p (Error e) = True"
  "toml_progress p (Panic q) = True"
  by (simp_all add: toml_progress_def)

lemma toml_progress_trans:
  "toml_progress p1 r \<Longrightarrow> toml_left p1 \<le> toml_left p \<Longrightarrow> toml_progress p r"
  by (cases r) (auto simp: toml_progress_def)

lemma toml_parseValue_fuel:
  "(\<forall>p. toml_wf p \<longrightarrow> 2 * toml_left p + 1 \<le> n \<longrightarrow>
      (\<exists>r. toml_parseValue n p = Some r \<and> toml_progress p r))
   \<and> (\<forall>p arr. toml_wf p \<longrightarrow> 2 * toml_left p + 2 \<le> n \<longrightarrow>
      (\<exists>r. toml_parseArray_loop n arr p = Some r \<and> toml_progress p r))"
proof (induction n)
  case 0
  show ?case by simp
next
  case (Suc n)
  note IHv = Suc.IH [THEN conjunct1, rule_format]
  note IHa = Suc.IH [THEN conjunct2, rule_format]
  have val_ok: "\<exists>r. toml_parseValue (Suc n) p = Some r \<and> toml_progress p r"
    if wf: "toml_wf p" and fuel: "2 * toml_left p + 1 \<le> Suc n" for p
  proof (cases "t_typ (t_token p)")
    case toml_tokenLeftBracket
    have wf1: "toml_wf (toml_parser_next p)" and wf2: "toml_wf (toml_parser_next (toml_parser_next p))"
      using wf by (simp_all add: toml_parser_next_wf)
    have l1: "toml_left (toml_parser_next p) < toml_left p"
      using wf toml_tokenLeftBracket by (simp add: toml_parser_next_left_less)
    have l2: "toml_left (toml_parser_next (toml_parser_next p)) < toml_left p"
      using l1 toml_parser_next_left_le [OF wf1] by simp
    show ?thesis
    proof (cases "t_typ (t_token (toml_parser_next p)) = toml_tokenRightBracket")
      case True
      then show ?thesis using toml_tokenLeftBracket wf2 l2 by simp
    next
      case False
      obtain r where r: "toml_parseArray_loop n [] (toml_parser_next p) = Some r"
          "toml_progress (toml_parser_next p) r"
        using IHa [OF wf1, of "[]"] l1 fuel by auto
      then show ?thesis using toml_tokenLeftBracket False l1 toml_progress_trans [of "toml_parser_next p" r p]
        by simp
    qed
  qed (use wf toml_parser_next_wf [of p] toml_parser_next_left_less [of p] in
        \<open>auto simp: toml_err_def split: sum.splits option.splits\<close>)
  have arr_ok: "\<exists>r. toml_parseArray_loop (Suc n) arr p = Some r \<and> toml_progress p r"
    if wf: "toml_wf p" and fuel: "2 * toml_left p + 2 \<le> Suc n" for p arr
  proof -
    obtain r where r: "toml_parseValue n p = Some r" "toml_progress p r"
      using IHv [OF wf] fuel by auto
    show ?thesis
    proof (cases r)
      case (Ok vp)
      obtain v p1 where vp: "vp = (v, p1)" by (cases vp)
      have wfp1: "toml_wf p1" and lp1: "toml_left p1 < toml_left p"
        using r Ok vp by simp_all
      have wfn: "toml_wf (toml_parser_next p1)"
        using wfp1 by (rule toml_parser_next_wf)
      have ln: "toml_left (toml_parser_next p1) \<le> toml_left p1"
        using wfp1 by (rule toml_parser_next_left_le)
      show ?thesis
      proof (cases "t_typ (t_token p1) = toml_tokenRightBracket")
        case True
        then show ?thesis using r Ok vp wfn ln lp1 by simp
      next
        case nb: False
        show ?thesis
        proof (cases "t_typ (t_token p1) = toml_tokenComma")
          case True
          have ln2: "toml_left (toml_parser_next p1) < toml_left p1"
            using wfp1 True by (simp add: toml_parser_next_left_less)
          obtain r1 where r1: "toml_parseArray_loop n (arr @ [v]) (toml_parser_next p1) = Some r1"
              "toml_progress (toml_parser_next p1) r1"
            using IHa [OF wfn, of "arr @ [v]"] ln2 lp1 fuel by auto
          have "toml_progress p r1"
            using r1(2) ln lp1 toml_progress_trans [of "toml_parser_next p1" r1 p] by simp
          then show ?thesis using r Ok vp nb True r1 by simp
        next
          case False
          then show ?thesis using r Ok vp nb by (simp add: toml_err_def)
        qed
      qed
    next
      case (Error e)
      then show ?thesis using r by simp
    next
      case (Panic q)
      then show ?thesis using r by simp
    qed
  qed
  show ?case using val_ok arr_ok by blast
qed

lemma toml_parseTablePath_fuel:
  "toml_wf p \<Longrightarrow> toml_left p + 1 \<le> n \<Longrightarrow>
   \<exists>path p1. toml_parseTablePath_loop n path0 p = Some (path, p1) \<and> toml_wf p1
      \<and> toml_left p1 \<le> toml_left p"
proof (induction n arbitrary: p path0)
  case 0
  then show ?case by simp
next
  case (Suc n)
  have wf1: "toml_wf (toml_parser_next p)" and wf2: "toml_wf (toml_parser_next (toml_parser_next p))"
    using Suc.prems by (simp_all add: toml_parser_next_wf)
  show ?case
  proof (cases "t_typ (t_token p) \<noteq> toml_tokenString")
    case True
    then show ?thesis using Suc.prems by simp
  next
    case str: False
    have l1: "toml_left (toml_parser_next p) < toml_left p"
      using Suc.prems str by (simp add: toml_parser_next_left_less)
    show ?thesis
    proof (cases "t_typ (t_token (toml_parser_next p)) \<noteq> toml_tokenDot")
      case True
      then show ?thesis using str wf1 l1 by simp
    next
      case False
      have l2: "toml_left (toml_parser_next (toml_parser_next p)) < toml_left (toml_parser_next p)"
        using wf1 False by (simp add: toml_parser_next_left_less)
      obtain path p1 where
        "toml_parseTablePath_loop n (path0 @ [t_value (t_token p)]) (toml_parser_next (toml_parser_next p)) = Some (path, p1)"
        "toml_wf p1" "toml_left p1 \<le> toml_left (toml_parser_next (toml_parser_next p))"
        using Suc.IH [OF wf2, of "path0 @ [t_value (t_token p)]"] l1 l2 Suc.prems by auto
      then show ?thesis using str False l1 l2 by simp
    qed
  qed
qed

lemma toml_parseTable_fuel:
  "toml_wf p \<Longrightarrow> 2 * toml_left p + 1 \<le> n \<Longrightarrow>
   \<exists>r. toml_parseTable_loop n table current p = Some r"
proof (induction n arbitrary: p table current)
  case 0
  then show ?case by simp
next
  case (Suc n)
  note wf = Suc.prems(1) and fuel = Suc.prems(2)
  have wf1: "toml_wf (toml_parser_next p)" and wf2: "toml_wf (toml_parser_next (toml_parser_next p))"
    using wf by (simp_all add: toml_parser_next_wf)
  show ?case
  proof (cases "t_typ (t_token p)")
    case toml_tokenLeftBracket
    have l1: "toml_left (toml_parser_next p) < toml_left p"
      using wf toml_tokenLeftBracket by (simp add: toml_parser_next_left_less)
    obtain path p1 where pth: "toml_parseTablePath_loop n [] (toml_parser_next p) = Some (path, p1)"
        "toml_wf p1" "toml_left p1 \<le> toml_left (toml_parser_next p)"
      using toml_parseTablePath_fuel [OF wf1, of n "[]"] l1 fuel by auto
    show ?thesis
    proof (cases "t_typ (t_token p1) \<noteq> toml_tokenRightBracket")
      case True
      then show ?thesis using toml_tokenLeftBracket pth by (simp add: toml_err_def)
    next
      case False
      have "toml_wf (toml_parser_next p1)"
        using pth(2) by (rule toml_parser_next_wf)
      moreover have "2 * toml_left (toml_parser_next p1) + 1 \<le> n"
        using toml_parser_next_left_le [OF pth(2)] pth(3) l1 fuel by simp
      ultimately have "\<exists>r. toml_parseTable_loop n table1 path (toml_parser_next p1) = Some r" for table1
        using Suc.IH by blast
      then show ?thesis using toml_tokenLeftBracket pth False
        by (cases "toml_navigate table path") simp_all
    qed
  next
    case toml_tokenString
    have l1: "toml_left (toml_parser_next p) < toml_left p"
      using wf toml_tokenString by (simp add: toml_parser_next_left_less)
    have l2: "toml_left (toml_parser_next (toml_parser_next p)) \<le> toml_left (toml_parser_next p)"
      using wf1 by (rule toml_parser_next_left_le)
    show ?thesis
    proof (cases "t_typ (t_token (toml_parser_next p)) \<noteq> toml_tokenEquals")
      case True
      then show ?thesis using toml_tokenString by (simp add: toml_err_def)
    next
      case False
      obtain r where r: "toml_parseValue n (toml_parser_next (toml_parser_next p)) = Some r"
          "toml_progress (toml_parser_next (toml_parser_next p)) r"
        using toml_parseValue_fuel [of n, THEN conjunct1, rule_format, OF wf2] l1 l2 fuel by auto
      show ?thesis
      proof (cases r)
        case (Ok vp)
        obtain v p1 where vp: "vp = (v, p1)" by (cases vp)
        have wfp1: "toml_wf p1"
          and lp1: "toml_left p1 < toml_left (toml_parser_next (toml_parser_next p))"
          using r Ok vp by simp_all
        have "toml_wf (toml_parser_next p1)"
          using wfp1 by (rule toml_parser_next_wf)
        moreover have "2 * toml_left (toml_parser_next p1) + 1 \<le> n"
          using toml_parser_next_left_le [OF wfp1] lp1 l1 l2 fuel by simp
        ultimately have "\<exists>r. toml_parseTable_loop n table1 current (toml_parser_next p1) = Some r" for table1
          using Suc.IH by blast
        then show ?thesis using toml_tokenString False r Ok vp
          by (simp add: toml_err_def)
      next
        case (Error e)
        then show ?thesis using toml_tokenString False r by simp
      next
        case (Panic q)
        then show ?thesis using toml_tokenString False r by simp
      qed
    qed
  qed (simp_all add: toml_err_def)
qed

lemma toml_newParser_wf: "toml_wf (toml_newParser data)"
  using toml_lexer_next_bound [of "toml_newLexer data"]
  by (simp add: toml_wf_def toml_newParser_def toml_newLexer_def)

lemma toml_newParser_left: "toml_left (toml_newParser data) \<le> length data + 1"
  by (simp add: toml_left_def toml_newParser_def toml_newLexer_def le_SucI)

text \<open>The fuel that \<open>toml_parse\<close> passes is enough: the TOML parser returns on every input.\<close>

theorem toml_parse_returns: "\<exists>r. toml_parse data = Some r"
  using toml_parseTable_fuel [OF toml_newParser_wf, of data "2 * length data + 3" "[]" "[]"]
    toml_newParser_left [of data]
  by (simp add: toml_parse_def)

section \<open>The TOML parser never builds a nested table\<close>

lemma toml_parseArray_loop_slice:
  "toml_parseArray_loop n arr p = Some (Ok (v, p1)) \<Longrightarrow> \<exists>xs. v = DSlice xs"
proof (induction n arbitrary: arr p)
  case 0
  then show ?case by simp
next
  case (Suc n)
  then show ?case
    by (auto simp: toml_err_def split: option.splits ret.splits prod.splits if_splits)
qed

lemma toml_parseValue_no_table:
  "toml_parseValue n p = Some (Ok (v, p1)) \<Longrightarrow> v \<noteq> DMap m"
proof (cases n)
  case 0
  then show "toml_parseValue n p = Some (Ok (v, p1)) \<Longrightarrow> v \<noteq> DMap m" by simp
next
  case (Suc k)
  assume r: "toml_parseValue n p = Some (Ok (v, p1))"
  show "v \<noteq> DMap m"
  proof (cases "t_typ (t_token p)")
    case toml_tokenLeftBracket
    then show ?thesis
      using r Suc toml_parseArray_loop_slice [of k "[]" "toml_parser_next p" v p1]
      by (auto split: if_splits)
  qed (use r Suc in \<open>auto simp: toml_err_def split: sum.splits option.splits if_splits\<close>)
qed

lemma toml_walk_flat: "flat cur \<Longrightarrow> toml_walk pre cur keys lst \<noteq> Ok tbl"
proof (induction keys arbitrary: pre cur tbl)
  case Nil
  then show ?case
    by (auto simp: flat_def split: option.splits dyn.splits)
next
  case (Cons key keys)
  have empty: "flat []"
    by (simp add: flat_def)
  show ?case
  proof (cases "map_of cur key")
    case None
    then show ?thesis
      using Cons.IH [OF empty, of "pre @ [key]"]
      by (auto simp: update_conv' split: ret.splits)
  next
    case (Some x)
    then show ?thesis
      using Cons.prems by (cases x) (auto simp: flat_def)
  qed
qed

lemma toml_navigate_flat: "flat table \<Longrightarrow> toml_navigate table path \<noteq> Ok tbl"
  by (simp add: toml_navigate_def toml_walk_flat)

lemma flat_update: "flat tbl \<Longrightarrow> (\<And>m. v \<noteq> DMap m) \<Longrightarrow> flat (AList.update k v tbl)"
  by (auto simp: flat_def update_conv')

lemma toml_parseTable_loop_flat:
  "flat table \<Longrightarrow> toml_parseTable_loop n table [] p = Some (Ok tbl) \<Longrightarrow> flat tbl"
proof (induction n arbitrary: table p)
  case 0
  then show ?case by simp
next
  case (Suc n)
  show ?case
  proof (cases "t_typ (t_token p)")
    case toml_tokenEOF
    then show ?thesis using Suc.prems by simp
  next
    case toml_tokenLeftBracket
    then show ?thesis
      using Suc.prems toml_navigate_flat [OF Suc.prems(1)]
      by (auto simp: toml_err_def split: option.splits prod.splits if_splits ret.splits)
  next
    case toml_tokenString
    show ?thesis
    proof (cases "toml_parseValue n (toml_parser_next (toml_parser_next p))")
      case None
      then show ?thesis using Suc.prems toml_tokenString by (auto simp: toml_err_def split: if_splits)
    next
      case (Some r)
      show ?thesis
      proof (cases r)
        case (Ok vp)
        obtain v p1 where vp: "vp = (v, p1)" by (cases vp)
        have "flat (AList.update (t_value (t_token p)) v table)"
          using Suc.prems(1) toml_parseValue_no_table Some Ok vp by (intro flat_update) auto
        moreover have "toml_parseTable_loop n (AList.update (t_value (t_token p)) v table) []
            (toml_parser_next p1) = Some (Ok tbl)"
          using Suc.prems(2) toml_tokenString Some Ok vp
          by (auto simp: toml_err_def split: if_splits)
        ultimately show ?thesis using Suc.IH by blast
      next
        case (Error e)
        then show ?thesis using Suc.prems toml_tokenString Some by (auto simp: toml_err_def split: if_splits)
      next
        case (Panic q)
        then show ?thesis using Suc.prems toml_tokenString Some by (auto simp: toml_err_def split: if_splits)
      qed
    qed
  qed (use Suc.prems in \<open>simp_all add: toml_err_def\<close>)
qed

text \<open>No input makes the TOML parser return a table that holds a table: a table header
  never gets past the type assertion on its last segment.\<close>

lemma toml_parse_flat: "toml_parse data = Some (Ok tbl) \<Longrightarrow> flat tbl"
  using toml_parseTable_loop_flat [of "[]"] by (simp add: toml_parse_def flat_def)

section \<open>Properties of the JSON lexer\<close>

text \<open>The lexer never changes its input, never moves back, stays within the input, and moves
  forward when it returns a token other than the end of input.\<close>

lemma json_skipWhitespace_input [simp]: "j_input (json_skipWhitespace l) = j_input l"
  by (induction l rule: json_skipWhitespace.induct) (subst json_skipWhitespace.simps, simp)

lemma json_skipWhitespace_pos: "j_pos l \<le> j_pos (json_skipWhitespace l)"
  by (induction l rule: json_skipWhitespace.induct) (subst json_skipWhitespace.simps, auto)

lemma json_skipWhitespace_bound:
  "j_pos l \<le> length (j_input l) \<Longrightarrow> j_pos (json_skipWhitespace l) \<le> length (j_input l)"
  by (induction l rule: json_skipWhitespace.induct) (subst json_skipWhitespace.simps, auto)

lemma json_readString_loop_input [simp]:
  "j_input (snd (json_readString_loop start l)) = j_input l"
  by (induction start l rule: json_readString_loop.induct)
     (subst json_readString_loop.simps, simp)

lemma json_readString_loop_pos:
  "j_pos l \<le> j_pos (snd (json_readString_loop start l))"
  by (induction start l rule: json_readString_loop.induct)
     (subst json_readString_loop.simps, auto)

lemma json_readString_loop_bound:
  "j_pos l \<le> length (j_input l) \<Longrightarrow> j_pos (snd (json_readString_loop start l)) \<le> length (j_input l)"
  by (induction start l rule: json_readString_loop.induct)
     (subst json_readString_loop.simps, auto)

lemma json_readNumber_loop_input [simp]:
  "j_input (snd (json_readNumber_loop start l)) = j_input l"
  by (induction start l rule: json_readNumber_loop.induct)
     (subst json_readNumber_loop.simps, simp)

lemma json_readNumber_loop_pos:
  "j_pos l \<le> j_pos (snd (json_readNumber_loop start l))"
  by (induction start l rule: json_readNumber_loop.induct)
     (subst json_readNumber_loop.simps, auto)

lemma json_readNumber_loop_bound:
  "j_pos l \<le> length (j_input l) \<Longrightarrow> j_pos (snd (json_readNumber_loop start l)) \<le> length (j_input l)"
  by (induction start l rule: json_readNumber_loop.induct)
     (subst json_readNumber_loop.simps, auto)

lemma json_readNumber_loop_advances:
  "j_pos l < length (j_input l) \<Longrightarrow> numberByte (j_input l ! j_pos l) \<Longrightarrow>
   j_pos l < j_pos (snd (json_readNumber_loop start l))"
  using json_readNumber_loop_pos [of "l\<lparr>j_pos := j_pos l + 1\<rparr>" start]
  by (subst json_readNumber_loop.simps) auto

lemma numberByte_first: "c = CHR ''-'' \<or> isDigit c \<Longrightarrow> numberByte c"
  by (auto simp: numberByte_def)

lemma json_lexer_next_input [simp]: "j_input (snd (json_lexer_next l)) = j_input l"
  by (simp add: json_lexer_next_def Let_def json_advance_def json_readString_def
      json_next_rest_def json_readNumber_def json_tok_def)

lemma json_lexer_next_bound:
  assumes "j_pos l \<le> length (j_input l)"
  shows "j_pos (snd (json_lexer_next l)) \<le> length (j_input l)"
proof -
  let ?l = "json_skipWhitespace l"
  have b: "j_pos ?l \<le> length (j_input l)"
    using assms by (rule json_skipWhitespace_bound)
  have s: "j_pos (snd (json_readString ?l)) \<le> length (j_input l)"
    if "j_pos ?l < length (j_input l)"
    using that json_readString_loop_bound [of "?l\<lparr>j_pos := j_pos ?l + 1\<rparr>" "j_pos ?l"]
    by (simp add: json_readString_def)
  have n: "j_pos (snd (json_next_rest ?l)) \<le> length (j_input l)"
    using b json_readNumber_loop_bound [of ?l "j_pos ?l"]
    by (simp add: json_next_rest_def json_readNumber_def)
  show ?thesis
    using b s n by (auto simp: json_lexer_next_def Let_def json_advance_def)
qed

lemma json_lexer_next_pos: "j_pos l \<le> j_pos (snd (json_lexer_next l))"
proof -
  let ?l = "json_skipWhitespace l"
  have b: "j_pos l \<le> j_pos ?l"
    by (rule json_skipWhitespace_pos)
  have s: "j_pos ?l \<le> j_pos (snd (json_readString ?l))"
    using json_readString_loop_pos [of "?l\<lparr>j_pos := j_pos ?l + 1\<rparr>" "j_pos ?l"]
    by (simp add: json_readString_def)
  have n: "j_pos ?l \<le> j_pos (snd (json_next_rest ?l))"
    using json_readNumber_loop_pos [of ?l "j_pos ?l"]
    by (simp add: json_next_rest_def json_readNumber_def)
  show ?thesis
    using b s n by (auto simp: json_lexer_next_def Let_def json_advance_def)
qed

lemma json_readString_loop_token:
  "j_typ (fst (json_readString_loop start l)) \<noteq> json_tokenEOF \<Longrightarrow>
   j_pos l < j_pos (snd (json_readString_loop start l))"
proof (induction start l rule: json_readString_loop.induct)
  case (1 start l)
  show ?case
  proof (cases "j_pos l < length (j_input l)")
    case False
    then show ?thesis using "1.prems"
      by (subst (asm) json_readString_loop.simps) (simp add: json_tok_def)
  next
    case inb: True
    show ?thesis
    proof (cases "j_input l ! j_pos l = CHR 0x22 \<and> j_input l ! (j_pos l - 1) \<noteq> CHR 0x5C")
      case True
      then show ?thesis using inb by (subst json_readString_loop.simps) simp
    next
      case False
      then have eq: "json_readString_loop start l = json_readString_loop start (l\<lparr>j_pos := j_pos l + 1\<rparr>)"
        using inb by (subst json_readString_loop.simps) auto
      then show ?thesis
        using json_readString_loop_pos [of "l\<lparr>j_pos := j_pos l + 1\<rparr>" start] by simp
    qed
  qed
qed

lemma json_lexer_next_advances:
  assumes "j_typ (fst (json_lexer_next l)) \<noteq> json_tokenEOF"
  shows "j_pos l < j_pos (snd (json_lexer_next l))"
proof -
  let ?l = "json_skipWhitespace l"
  have b: "j_pos l \<le> j_pos ?l"
    by (rule json_skipWhitespace_pos)
  have inb: "j_pos ?l < length (j_input ?l)"
    using assms by (auto simp: json_lexer_next_def Let_def json_tok_def split: if_splits)
  have s: "j_pos ?l < j_pos (snd (json_readString ?l))"
    using json_readString_loop_pos [of "?l\<lparr>j_pos := j_pos ?l + 1\<rparr>" "j_pos ?l"]
    by (simp add: json_readString_def)
  have n: "j_pos ?l < j_pos (snd (json_next_rest ?l))"
    if "j_typ (fst (json_next_rest ?l)) \<noteq> json_tokenEOF"
    using that inb json_readNumber_loop_advances [of ?l "j_pos ?l"] numberByte_first
    by (auto simp: json_next_rest_def json_readNumber_def json_tok_def split: if_splits)
  show ?thesis
    using assms b s n inb
    by (auto simp: json_lexer_next_def Let_def json_advance_def split: if_splits)
qed

section \<open>The JSON parser returns\<close>

lemma json_parser_next_input [simp]:
  "j_input (j_lexer (json_parser_next p)) = j_input (j_lexer p)"
  by (simp add: json_parser_next_def)

lemma json_parser_next_wf: "json_wf p \<Longrightarrow> json_wf (json_parser_next p)"
  using json_lexer_next_bound [of "j_lexer p"] by (simp add: json_wf_def json_parser_next_def)

lemma json_parser_next_left_le: "json_wf p \<Longrightarrow> json_left (json_parser_next p) \<le> json_left p"
  using json_lexer_next_bound [of "j_lexer p"] json_lexer_next_pos [of "j_lexer p"]
    json_lexer_next_advances [of "j_lexer p"]
  by (auto simp: json_wf_def json_left_def json_parser_next_def)

lemma json_parser_next_left_less:
  "json_wf p \<Longrightarrow> j_typ (j_token p) \<noteq> json_tokenEOF \<Longrightarrow> json_left (json_parser_next p) < json_left p"
  using json_lexer_next_bound [of "j_lexer p"] json_lexer_next_pos [of "j_lexer p"]
    json_lexer_next_advances [of "j_lexer p"]
  by (auto simp: json_wf_def json_left_def json_parser_next_def)

lemma json_progress_simps [simp]:
  "json_progress p (Ok (v, p1)) = (json_wf p1 \<and> json_left p1 < json_left p)"
  "json_progress p (Error e) = True"
  "json_progress p (Panic q) = True"
  by (simp_all add: json_progress_def)

lemma json_progress_trans:
  "json_progress p1 r \<Longrightarrow> json_left p1 \<le> json_left p \<Longrightarrow> json_progress p r"
  by (cases r) (auto simp: json_progress_def)

lemma json_parse_fuel:
  "(\<forall>p. json_wf p \<longrightarrow> 2 * json_left p + 1 \<le> n \<longrightarrow>
      (\<exists>r. json_parseValue n p = Some r \<and> json_progress p r))
   \<and> (\<forall>p obj. json_wf p \<longrightarrow> 2 * json_left p + 2 \<le> n \<longrightarrow>
      (\<exists>r. json_parseObject_loop n obj p = Some r \<and> json_progress p r))
   \<and> (\<forall>p arr. json_wf p \<longrightarrow> 2 * json_left p + 2 \<le> n \<longrightarrow>
      (\<exists>r. json_parseArray_loop n arr p = Some r \<and> json_progress p r))"
proof (induction n)
  case 0
  show ?case by simp
next
  case (Suc n)
  note IHv = Suc.IH [THEN conjunct1, rule_format]
  note IHo = Suc.IH [THEN conjunct2, THEN conjunct1, rule_format]
  note IHa = Suc.IH [THEN conjunct2, THEN conjunct2, rule_format]
  have val_ok: "\<exists>r. json_parseValue (Suc n) p = Some r \<and> json_progress p r"
    if wf: "json_wf p" and fuel: "2 * json_left p + 1 \<le> Suc n" for p
  proof (cases "j_typ (j_token p)")
    case json_tokenLeftBrace
    have wf1: "json_wf (json_parser_next p)" and wf2: "json_wf (json_parser_next (json_parser_next p))"
      using wf by (simp_all add: json_parser_next_wf)
    have l1: "json_left (json_parser_next p) < json_left p"
      using wf json_tokenLeftBrace by (simp add: json_parser_next_left_less)
    have l2: "json_left (json_parser_next (json_parser_next p)) < json_left p"
      using l1 json_parser_next_left_le [OF wf1] by simp
    show ?thesis
    proof (cases "j_typ (j_token (json_parser_next p)) = json_tokenRightBrace")
      case True
      then show ?thesis using json_tokenLeftBrace wf2 l2 by simp
    next
      case False
      obtain r where r: "json_parseObject_loop n [] (json_parser_next p) = Some r"
          "json_progress (json_parser_next p) r"
        using IHo [OF wf1, of "[]"] l1 fuel by auto
      then show ?thesis using json_tokenLeftBrace False l1 json_progress_trans [of "json_parser_next p" r p]
        by simp
    qed
  next
    case json_tokenLeftBracket
    have wf1: "json_wf (json_parser_next p)" and wf2: "json_wf (json_parser_next (json_parser_next p))"
      using wf by (simp_all add: json_parser_next_wf)
    have l1: "json_left (json_parser_next p) < json_left p"
      using wf json_tokenLeftBracket by (simp add: json_parser_next_left_less)
    have l2: "json_left (json_parser_next (json_parser_next p)) < json_left p"
      using l1 json_parser_next_left_le [OF wf1] by simp
    show ?thesis
    proof (cases "j_typ (j_token (json_parser_next p)) = json_tokenRightBracket")
      case True
      then show ?thesis using json_tokenLeftBracket wf2 l2 by simp
    next
      case False
      obtain r where r: "json_parseArray_loop n [] (json_parser_next p) = Some r"
          "json_progress (json_parser_next p) r"
        using IHa [OF wf1, of "[]"] l1 fuel by auto
      then show ?thesis using json_tokenLeftBracket False l1 json_progress_trans [of "json_parser_next p" r p]
        by simp
    qed
  qed (use wf json_parser_next_wf [of p] json_parser_next_left_less [of p] in
        \<open>auto simp: json_err_def split: sum.splits\<close>)
  have obj_ok: "\<exists>r. json_parseObject_loop (Suc n) obj p = Some r \<and> json_progress p r"
    if wf: "json_wf p" and fuel: "2 * json_left p + 2 \<le> Suc n" for p obj
  proof (cases "j_typ (j_token p) \<noteq> json_tokenString
      \<or> j_typ (j_token (json_parser_next p)) \<noteq> json_tokenColon")
    case True
    then show ?thesis by (auto simp: json_err_def)
  next
    case False
    let ?p2 = "json_parser_next (json_parser_next p)"
    have wf1: "json_wf (json_parser_next p)" and wf2: "json_wf ?p2"
      using wf by (simp_all add: json_parser_next_wf)
    have l1: "json_left (json_parser_next p) < json_left p"
      using wf False by (simp add: json_parser_next_left_less)
    have l2: "json_left ?p2 < json_left (json_parser_next p)"
      using wf1 False by (simp add: json_parser_next_left_less)
    obtain r where r: "json_parseValue n ?p2 = Some r" "json_progress ?p2 r"
      using IHv [OF wf2] l1 l2 fuel by auto
    show ?thesis
    proof (cases r)
      case (Ok vp)
      obtain v p1 where vp: "vp = (v, p1)" by (cases vp)
      have wfp1: "json_wf p1" and lp1: "json_left p1 < json_left ?p2"
        using r Ok vp by simp_all
      have wfn: "json_wf (json_parser_next p1)"
        using wfp1 by (rule json_parser_next_wf)
      have ln: "json_left (json_parser_next p1) \<le> json_left p1"
        using wfp1 by (rule json_parser_next_left_le)
      show ?thesis
      proof (cases "j_typ (j_token p1) = json_tokenRightBrace")
        case True
        then show ?thesis using False r Ok vp wfn ln lp1 l1 l2 by simp
      next
        case nb: False
        show ?thesis
        proof (cases "j_typ (j_token p1) = json_tokenComma")
          case True
          obtain r1 where r1: "json_parseObject_loop n (AList.update (j_value (j_token p)) v obj)
                (json_parser_next p1) = Some r1" "json_progress (json_parser_next p1) r1"
            using IHo [OF wfn, of "AList.update (j_value (j_token p)) v obj"] ln lp1 l1 l2 fuel by auto
          have "json_progress p r1"
            using r1(2) ln lp1 l1 l2 json_progress_trans [of "json_parser_next p1" r1 p] by simp
          then show ?thesis using False r Ok vp nb True r1 by simp
        next
          case False2: False
          then show ?thesis using False r Ok vp nb by (simp add: json_err_def)
        qed
      qed
    next
      case (Error e)
      then show ?thesis using False r by simp
    next
      case (Panic q)
      then show ?thesis using False r by simp
    qed
  qed
  have arr_ok: "\<exists>r. json_parseArray_loop (Suc n) arr p = Some r \<and> json_progress p r"
    if wf: "json_wf p" and fuel: "2 * json_left p + 2 \<le> Suc n" for p arr
  proof -
    obtain r where r: "json_parseValue n p = Some r" "json_progress p r"
      using IHv [OF wf] fuel by auto
    show ?thesis
    proof (cases r)
      case (Ok vp)
      obtain v p1 where vp: "vp = (v, p1)" by (cases vp)
      have wfp1: "json_wf p1" and lp1: "json_left p1 < json_left p"
        using r Ok vp by simp_all
      have wfn: "json_wf (json_parser_next p1)"
        using wfp1 by (rule json_parser_next_wf)
      have ln: "json_left (json_parser_next p1) \<le> json_left p1"
        using wfp1 by (rule json_parser_next_left_le)
      show ?thesis
      proof (cases "j_typ (j_token p1) = json_tokenRightBracket")
        case True
        then show ?thesis using r Ok vp wfn ln lp1 by simp
      next
        case nb: False
        show ?thesis
        proof (cases "j_typ (j_token p1) = json_tokenComma")
          case True
          have ln2: "json_left (json_parser_next p1) < json_left p1"
            using wfp1 True by (simp add: json_parser_next_left_less)
          obtain r1 where r1: "json_parseArray_loop n (arr @ [v]) (json_parser_next p1) = Some r1"
              "json_progress (json_parser_next p1) r1"
            using IHa [OF wfn, of "arr @ [v]"] ln2 lp1 fuel by auto
          have "json_progress p r1"
            using r1(2) ln lp1 json_progress_trans [of "json_parser_next p1" r1 p] by simp
          then show ?thesis using r Ok vp nb True r1 by simp
        next
          case False
          then show ?thesis using r Ok vp nb by (simp add: json_err_def)
        qed
      qed
    next
      case (Error e)
      then show ?thesis using r by simp
    next
      case (Panic q)
      then show ?thesis using r by simp
    qed
  qed
  show ?case using val_ok obj_ok arr_ok by blast
qed

lemma json_newParser_wf: "json_wf (json_newParser data)"
  using json_lexer_next_bound [of "json_newLexer data"]
  by (simp add: json_wf_def json_newParser_def json_newLexer_def)

lemma json_newParser_left: "json_left (json_newParser data) \<le> length data + 1"
  by (simp add: json_left_def json_newParser_def json_newLexer_def le_SucI)

text \<open>The fuel that \<open>json_parse\<close> passes is enough: the JSON parser returns on every input.\<close>

theorem json_parse_returns: "\<exists>r. json_parse data = Some r"
proof -
  have "2 * json_left (json_newParser data) + 1 \<le> 2 * length data + 3"
    using json_newParser_left [of data] by simp
  then obtain r where "json_parseValue (2 * length data + 3) (json_newParser data) = Some r"
    using json_parse_fuel [of "2 * length data + 3"] json_newParser_wf by blast
  then show ?thesis
    by (cases r) (auto simp: json_parse_def split: prod.splits)
qed

section \<open>The JSON parser on an extended input\<close>

lemma slice_append: "b \<le> length p \<Longrightarrow> slice (p @ t) a b = slice p a b"
  by (simp add: slice_def)

lemma json_lexer_swap: "l\<lparr>j_input := a, j_pos := b\<rparr> = l\<lparr>j_pos := b, j_input := a\<rparr>"
  by (cases l) simp

lemma json_lexer_same: "j_input l = a \<Longrightarrow> l\<lparr>j_input := a\<rparr> = l"
  by (cases l) simp

lemma json_skipWhitespace_append:
  "j_input l = p \<Longrightarrow> j_pos (json_skipWhitespace l) < length p \<Longrightarrow>
   json_skipWhitespace (l\<lparr>j_input := p @ t\<rparr>) = (json_skipWhitespace l)\<lparr>j_input := p @ t\<rparr>"
proof (induction l rule: json_skipWhitespace.induct)
  case (1 l)
  show ?case
  proof (cases "j_pos l < length (j_input l) \<and> isSpace (j_input l ! j_pos l)")
    case True
    then have step: "json_skipWhitespace l = json_skipWhitespace (l\<lparr>j_pos := j_pos l + 1\<rparr>)"
      by (subst json_skipWhitespace.simps) simp
    have "json_skipWhitespace (l\<lparr>j_input := p @ t\<rparr>)
        = json_skipWhitespace (l\<lparr>j_pos := j_pos l + 1\<rparr>\<lparr>j_input := p @ t\<rparr>)"
      using True "1.prems"(1) by (subst json_skipWhitespace.simps) (simp add: nth_append json_lexer_swap)
    also have "\<dots> = (json_skipWhitespace (l\<lparr>j_pos := j_pos l + 1\<rparr>))\<lparr>j_input := p @ t\<rparr>"
      using "1.IH" [OF True] "1.prems" step by simp
    finally show ?thesis using step by simp
  next
    case False
    then have stop: "json_skipWhitespace l = l"
      by (subst json_skipWhitespace.simps) auto
    then have "j_pos l < length p" using "1.prems" by simp
    then show ?thesis using False stop "1.prems"(1)
      by (subst json_skipWhitespace.simps) (auto simp: nth_append)
  qed
qed

lemma json_readString_loop_append:
  "j_input l = p \<Longrightarrow> j_typ (fst (json_readString_loop start l)) \<noteq> json_tokenEOF \<Longrightarrow>
   json_readString_loop start (l\<lparr>j_input := p @ t\<rparr>)
     = (fst (json_readString_loop start l), (snd (json_readString_loop start l))\<lparr>j_input := p @ t\<rparr>)"
proof (induction start l rule: json_readString_loop.induct)
  case (1 start l)
  show ?case
  proof (cases "j_pos l < length (j_input l)")
    case False
    then show ?thesis using "1.prems"
      by (subst (asm) json_readString_loop.simps) (simp add: json_tok_def)
  next
    case inb: True
    show ?thesis
    proof (cases "j_input l ! j_pos l = CHR 0x22 \<and> j_input l ! (j_pos l - 1) \<noteq> CHR 0x5C")
      case True
      have "json_readString_loop start l
          = (json_tok json_tokenString (slice (j_input l) (start + 1) (j_pos l + 1 - 1)), l\<lparr>j_pos := j_pos l + 1\<rparr>)"
        using True inb by (subst json_readString_loop.simps) simp
      moreover have "json_readString_loop start (l\<lparr>j_input := p @ t\<rparr>)
          = (json_tok json_tokenString (slice (p @ t) (start + 1) (j_pos l + 1 - 1)),
             l\<lparr>j_input := p @ t, j_pos := j_pos l + 1\<rparr>)"
        using True inb "1.prems"(1) less_imp_diff_less [of "j_pos l" "length p" 1]
        by (subst json_readString_loop.simps) (simp add: nth_append)
      ultimately show ?thesis using inb "1.prems"(1) by (simp add: slice_append)
    next
      case False
      then have step: "json_readString_loop start l = json_readString_loop start (l\<lparr>j_pos := j_pos l + 1\<rparr>)"
        using inb by (subst json_readString_loop.simps) auto
      have "json_readString_loop start (l\<lparr>j_input := p @ t\<rparr>)
          = json_readString_loop start (l\<lparr>j_pos := j_pos l + 1\<rparr>\<lparr>j_input := p @ t\<rparr>)"
        using False inb "1.prems"(1) less_imp_diff_less [of "j_pos l" "length p" 1]
        by (subst json_readString_loop.simps) (auto simp: nth_append json_lexer_swap)
      then show ?thesis
        using "1.IH" [OF inb False] "1.prems" step by simp
    qed
  qed
qed

lemma json_readNumber_loop_bytes:
  "j_pos l \<le> i \<Longrightarrow> i < j_pos (snd (json_readNumber_loop start l)) \<Longrightarrow> numberByte (j_input l ! i)"
proof (induction start l rule: json_readNumber_loop.induct)
  case (1 start l)
  show ?case
  proof (cases "j_pos l < length (j_input l) \<and> numberByte (j_input l ! j_pos l)")
    case True
    then have step: "json_readNumber_loop start l = json_readNumber_loop start (l\<lparr>j_pos := j_pos l + 1\<rparr>)"
      by (subst json_readNumber_loop.simps) simp
    show ?thesis
    proof (cases "i = j_pos l")
      case True
      then show ?thesis using \<open>j_pos l < length (j_input l) \<and> numberByte (j_input l ! j_pos l)\<close> by simp
    next
      case False
      then show ?thesis using "1.IH" [of ] True "1.prems" step by simp
    qed
  next
    case False
    then have "json_readNumber_loop start l = (json_tok json_tokenNumber (slice (j_input l) start (j_pos l)), l)"
      by (subst json_readNumber_loop.simps) auto
    then show ?thesis using "1.prems" by simp
  qed
qed

lemma json_readNumber_loop_append:
  "j_input l = p \<Longrightarrow> j_pos l \<le> length p \<Longrightarrow>
   j_pos (snd (json_readNumber_loop start l)) < length p \<or> t = [] \<or> \<not> numberByte (hd t) \<Longrightarrow>
   json_readNumber_loop start (l\<lparr>j_input := p @ t\<rparr>)
     = (fst (json_readNumber_loop start l), (snd (json_readNumber_loop start l))\<lparr>j_input := p @ t\<rparr>)"
proof (induction start l rule: json_readNumber_loop.induct)
  case (1 start l)
  show ?case
  proof (cases "j_pos l < length (j_input l)")
    case inb: True
    show ?thesis
    proof (cases "numberByte (j_input l ! j_pos l)")
      case True
      then have step: "json_readNumber_loop start l = json_readNumber_loop start (l\<lparr>j_pos := j_pos l + 1\<rparr>)"
        using inb by (subst json_readNumber_loop.simps) simp
      have "json_readNumber_loop start (l\<lparr>j_input := p @ t\<rparr>)
          = json_readNumber_loop start (l\<lparr>j_pos := j_pos l + 1\<rparr>\<lparr>j_input := p @ t\<rparr>)"
        using True inb "1.prems"(1) by (subst json_readNumber_loop.simps) (simp add: nth_append json_lexer_swap)
      then show ?thesis
        using "1.IH" [OF inb] True inb "1.prems" step by simp
    next
      case False
      then have "json_readNumber_loop start l = (json_tok json_tokenNumber (slice (j_input l) start (j_pos l)), l)"
        using inb by (subst json_readNumber_loop.simps) simp
      moreover have "json_readNumber_loop start (l\<lparr>j_input := p @ t\<rparr>)
          = (json_tok json_tokenNumber (slice (p @ t) start (j_pos l)), l\<lparr>j_input := p @ t\<rparr>)"
        using False inb "1.prems"(1) by (subst json_readNumber_loop.simps) (simp add: nth_append)
      ultimately show ?thesis using inb "1.prems"(1) by (simp add: slice_append)
    qed
  next
    case False
    then have at_end: "j_pos l = length p" using "1.prems" by simp
    have res: "json_readNumber_loop start l = (json_tok json_tokenNumber (slice (j_input l) start (j_pos l)), l)"
      using False by (subst json_readNumber_loop.simps) simp
    then have tl: "t = [] \<or> \<not> numberByte (hd t)"
      using "1.prems"(3) at_end by simp
    show ?thesis
    proof (cases "t = []")
      case True
      then show ?thesis using "1.prems"(1) by (simp add: json_lexer_same)
    next
      case False
      then have "\<not> numberByte ((p @ t) ! j_pos l)"
        using tl at_end by (simp add: nth_append hd_conv_nth)
      then have "json_readNumber_loop start (l\<lparr>j_input := p @ t\<rparr>)
          = (json_tok json_tokenNumber (slice (p @ t) start (j_pos l)), l\<lparr>j_input := p @ t\<rparr>)"
        using False at_end by (subst json_readNumber_loop.simps) simp
      then show ?thesis using res at_end "1.prems"(1) by (simp add: slice_append)
    qed
  qed
qed

lemma json_readNumber_append:
  assumes inp: "j_input l = p" and inb: "j_pos l < length p"
    and first: "numberByte (p ! j_pos l)" and cut: "clean_cut p t"
  shows "json_readNumber (l\<lparr>j_input := p @ t\<rparr>)
     = (fst (json_readNumber l), (snd (json_readNumber l))\<lparr>j_input := p @ t\<rparr>)"
proof -
  let ?e = "j_pos (snd (json_readNumber_loop (j_pos l) l))"
  have bound: "?e \<le> length p"
    using json_readNumber_loop_bound [of l "j_pos l"] inp inb by simp
  have "?e < length p \<or> t = [] \<or> \<not> numberByte (hd t)"
  proof (cases "?e = length p")
    case True
    then have "numberByte (p ! (length p - 1))"
      using json_readNumber_loop_bytes [of l "length p - 1" "j_pos l"] inp inb by simp
    then have "numberByte (last p)"
      using inb by (cases "p = []") (simp_all add: last_conv_nth)
    then show ?thesis using cut inb by (auto simp: clean_cut_def)
  next
    case False
    then show ?thesis using bound by simp
  qed
  then show ?thesis
    using json_readNumber_loop_append [of l p "j_pos l" t] inp inb
    by (simp add: json_readNumber_def)
qed

lemma json_lexer_next_append:
  assumes inp: "j_input l = p" and cut: "clean_cut p t"
    and tok: "j_typ (fst (json_lexer_next l)) \<noteq> json_tokenEOF"
  shows "json_lexer_next (l\<lparr>j_input := p @ t\<rparr>)
     = (fst (json_lexer_next l), (snd (json_lexer_next l))\<lparr>j_input := p @ t\<rparr>)"
proof -
  let ?l = "json_skipWhitespace l"
  let ?k = "j_pos ?l"
  have inb: "?k < length p"
    using tok inp by (auto simp: json_lexer_next_def Let_def json_tok_def split: if_splits)
  have ws: "json_skipWhitespace (l\<lparr>j_input := p @ t\<rparr>) = ?l\<lparr>j_input := p @ t\<rparr>"
    using json_skipWhitespace_append [OF inp inb] .
  have inp1: "j_input ?l = p"
    using inp by simp
  have c: "(p @ t) ! ?k = p ! ?k"
    using inb by (simp add: nth_append)
  have adv: "json_advance n (?l\<lparr>j_input := p @ t\<rparr>) = (json_advance n ?l)\<lparr>j_input := p @ t\<rparr>" for n
    by (simp add: json_advance_def json_lexer_swap)
  have str: "json_readString (?l\<lparr>j_input := p @ t\<rparr>)
      = (fst (json_readString ?l), (snd (json_readString ?l))\<lparr>j_input := p @ t\<rparr>)"
    if "j_typ (fst (json_readString ?l)) \<noteq> json_tokenEOF"
    using that json_readString_loop_append [of "?l\<lparr>j_pos := ?k + 1\<rparr>" p ?k t] inp1
    by (simp add: json_readString_def json_lexer_swap)
  have rest: "json_next_rest (?l\<lparr>j_input := p @ t\<rparr>)
      = (fst (json_next_rest ?l), (snd (json_next_rest ?l))\<lparr>j_input := p @ t\<rparr>)"
    if "j_typ (fst (json_next_rest ?l)) \<noteq> json_tokenEOF"
  proof -
    have first: "p ! ?k = CHR ''-'' \<or> isDigit (p ! ?k)"
      using that inp1 by (auto simp: json_next_rest_def json_tok_def split: if_splits)
    then have "numberByte (p ! ?k)"
      by (rule numberByte_first)
    then show ?thesis
      using json_readNumber_append [OF inp1 inb _ cut] first inp1 c
      by (simp add: json_next_rest_def)
  qed
  have kw: "slice (p @ t) ?k (?k + n) = slice p ?k (?k + n)" if "?k + n \<le> length p" for n
    using that by (rule slice_append)
  have notkw: "j_typ (fst (json_next_rest ?l)) = json_tokenEOF"
    if "p ! ?k = CHR ''t'' \<or> p ! ?k = CHR ''f'' \<or> p ! ?k = CHR ''n''"
    using that inp1 by (auto simp: json_next_rest_def json_tok_def isDigit_def)
  let ?m = "?l\<lparr>j_input := p @ t\<rparr>"
  have L: "json_lexer_next l = (if p ! ?k = CHR 0x7B then (json_tok json_tokenLeftBrace [CHR 0x7B], json_advance 1 ?l)
         else if p ! ?k = CHR 0x7D then (json_tok json_tokenRightBrace [CHR 0x7D], json_advance 1 ?l)
         else if p ! ?k = CHR ''['' then (json_tok json_tokenLeftBracket ''['', json_advance 1 ?l)
         else if p ! ?k = CHR '']'' then (json_tok json_tokenRightBracket '']'', json_advance 1 ?l)
         else if p ! ?k = CHR '','' then (json_tok json_tokenComma '','', json_advance 1 ?l)
         else if p ! ?k = CHR '':'' then (json_tok json_tokenColon '':'', json_advance 1 ?l)
         else if p ! ?k = CHR 0x22 then json_readString ?l
         else if p ! ?k = CHR ''t'' then
           (if ?k + 3 < length p \<and> slice p ?k (?k + 4) = ''true''
            then (json_tok json_tokenTrue ''true'', json_advance 4 ?l)
            else json_next_rest ?l)
         else if p ! ?k = CHR ''f'' then
           (if ?k + 4 < length p \<and> slice p ?k (?k + 5) = ''false''
            then (json_tok json_tokenFalse ''false'', json_advance 5 ?l)
            else json_next_rest ?l)
         else if p ! ?k = CHR ''n'' then
           (if ?k + 3 < length p \<and> slice p ?k (?k + 4) = ''null''
            then (json_tok json_tokenNull ''null'', json_advance 4 ?l)
            else json_next_rest ?l)
         else json_next_rest ?l)"
    using inb inp by (simp add: json_lexer_next_def Let_def)
  have R: "json_lexer_next (l\<lparr>j_input := p @ t\<rparr>) = (if p ! ?k = CHR 0x7B then (json_tok json_tokenLeftBrace [CHR 0x7B], json_advance 1 ?m)
         else if p ! ?k = CHR 0x7D then (json_tok json_tokenRightBrace [CHR 0x7D], json_advance 1 ?m)
         else if p ! ?k = CHR ''['' then (json_tok json_tokenLeftBracket ''['', json_advance 1 ?m)
         else if p ! ?k = CHR '']'' then (json_tok json_tokenRightBracket '']'', json_advance 1 ?m)
         else if p ! ?k = CHR '','' then (json_tok json_tokenComma '','', json_advance 1 ?m)
         else if p ! ?k = CHR '':'' then (json_tok json_tokenColon '':'', json_advance 1 ?m)
         else if p ! ?k = CHR 0x22 then json_readString ?m
         else if p ! ?k = CHR ''t'' then
           (if ?k + 3 < length (p @ t) \<and> slice (p @ t) ?k (?k + 4) = ''true''
            then (json_tok json_tokenTrue ''true'', json_advance 4 ?m)
            else json_next_rest ?m)
         else if p ! ?k = CHR ''f'' then
           (if ?k + 4 < length (p @ t) \<and> slice (p @ t) ?k (?k + 5) = ''false''
            then (json_tok json_tokenFalse ''false'', json_advance 5 ?m)
            else json_next_rest ?m)
         else if p ! ?k = CHR ''n'' then
           (if ?k + 3 < length (p @ t) \<and> slice (p @ t) ?k (?k + 4) = ''null''
            then (json_tok json_tokenNull ''null'', json_advance 4 ?m)
            else json_next_rest ?m)
         else json_next_rest ?m)"
    using inb c by (simp add: json_lexer_next_def Let_def ws)
  have kw4: "?k + 3 < length p \<Longrightarrow> slice (p @ t) ?k (?k + 4) = slice p ?k (?k + 4)"
    using kw [of 4] by simp
  have kw5: "?k + 4 < length p \<Longrightarrow> slice (p @ t) ?k (?k + 5) = slice p ?k (?k + 5)"
    using kw [of 5] by simp
  consider (lbrace) "p ! ?k = CHR 0x7B" | (rbrace) "p ! ?k = CHR 0x7D"
    | (lbracket) "p ! ?k = CHR ''[''" | (rbracket) "p ! ?k = CHR '']''"
    | (comma) "p ! ?k = CHR '',''" | (colon) "p ! ?k = CHR '':''"
    | (quote) "p ! ?k = CHR 0x22"
    | (t) "p ! ?k = CHR ''t''" | (f) "p ! ?k = CHR ''f''" | (n) "p ! ?k = CHR ''n''"
    | (other) "p ! ?k \<notin> {CHR 0x7B, CHR 0x7D, CHR ''['', CHR '']'', CHR '','', CHR '':'',
         CHR 0x22, CHR ''t'', CHR ''f'', CHR ''n''}"
    by blast
  then show ?thesis
  proof cases
    case lbrace
    then show ?thesis by (simp add: L R adv)
  next
    case rbrace
    then show ?thesis by (simp add: L R adv)
  next
    case lbracket
    then show ?thesis by (simp add: L R adv)
  next
    case rbracket
    then show ?thesis by (simp add: L R adv)
  next
    case comma
    then show ?thesis by (simp add: L R adv)
  next
    case colon
    then show ?thesis by (simp add: L R adv)
  next
    case quote
    then have "j_typ (fst (json_readString ?l)) \<noteq> json_tokenEOF"
      using tok by (simp add: L)
    then show ?thesis using quote str by (simp add: L R)
  next
    case t
    show ?thesis
    proof (cases "?k + 3 < length p \<and> slice p ?k (?k + 4) = ''true''")
      case True
      then show ?thesis using t kw4 by (simp add: L R adv)
    next
      case False
      then have "json_lexer_next l = json_next_rest ?l"
        using t by (auto simp: L)
      then show ?thesis using notkw t tok by simp
    qed
  next
    case f
    show ?thesis
    proof (cases "?k + 4 < length p \<and> slice p ?k (?k + 5) = ''false''")
      case True
      then show ?thesis using f kw5 by (simp add: L R adv)
    next
      case False
      then have "json_lexer_next l = json_next_rest ?l"
        using f by (auto simp: L)
      then show ?thesis using notkw f tok by simp
    qed
  next
    case n
    show ?thesis
    proof (cases "?k + 3 < length p \<and> slice p ?k (?k + 4) = ''null''")
      case True
      then show ?thesis using n kw4 by (simp add: L R adv)
    next
      case False
      then have "json_lexer_next l = json_next_rest ?l"
        using n by (auto simp: L)
      then show ?thesis using notkw n tok by simp
    qed
  next
    case other
    then have eq: "json_lexer_next l = json_next_rest ?l"
      by (simp add: L)
    then have "j_typ (fst (json_next_rest ?l)) \<noteq> json_tokenEOF"
      using tok by simp
    then show ?thesis using other rest eq by (simp add: R)
  qed
qed

lemma json_ext_token [simp]: "j_token (json_ext t p) = j_token p"
  by (simp add: json_ext_def)

lemma json_parser_next_ext:
  assumes "j_input (j_lexer p1) = p" and "clean_cut p t"
  shows "json_follows p t (json_parser_next p1) (json_parser_next (json_ext t p1))"
proof -
  have "json_parser_next (json_ext t p1) = json_ext t (json_parser_next p1)"
    if "j_typ (j_token (json_parser_next p1)) \<noteq> json_tokenEOF"
    using that json_lexer_next_append [of "j_lexer p1" p t] assms
    by (simp add: json_parser_next_def json_ext_def)
  then show ?thesis
    using assms by (simp add: json_follows_def)
qed

lemma json_fuel_mono:
  "(\<forall>p r m. json_parseValue n p = Some r \<longrightarrow> n \<le> m \<longrightarrow> json_parseValue m p = Some r)
   \<and> (\<forall>p obj r m. json_parseObject_loop n obj p = Some r \<longrightarrow> n \<le> m \<longrightarrow>
         json_parseObject_loop m obj p = Some r)
   \<and> (\<forall>p arr r m. json_parseArray_loop n arr p = Some r \<longrightarrow> n \<le> m \<longrightarrow>
         json_parseArray_loop m arr p = Some r)"
proof (induction n)
  case 0
  show ?case by simp
next
  case (Suc n)
  note IHv = Suc.IH [THEN conjunct1, rule_format]
  note IHo = Suc.IH [THEN conjunct2, THEN conjunct1, rule_format]
  note IHa = Suc.IH [THEN conjunct2, THEN conjunct2, rule_format]
  have v: "json_parseValue m p = Some r"
    if h1: "json_parseValue (Suc n) p = Some r" and h2: "Suc n \<le> m" for p r m
  proof -
    obtain k where m: "m = Suc k" and k: "n \<le> k"
      using h2 by (cases m) auto
    show ?thesis
      using h1 IHo [of "[]" "json_parser_next p" r k] IHa [of "[]" "json_parser_next p" r k] k
      unfolding m by (cases "j_typ (j_token p)") (auto split: if_splits)
  qed
  have o: "json_parseObject_loop m obj p = Some r"
    if h1: "json_parseObject_loop (Suc n) obj p = Some r" and h2: "Suc n \<le> m" for p obj r m
  proof -
    obtain k where m: "m = Suc k" and k: "n \<le> k"
      using h2 by (cases m) auto
    show ?thesis
    proof (cases "json_parseValue n (json_parser_next (json_parser_next p))")
      case None
      then show ?thesis using h1 unfolding m by (auto split: if_splits)
    next
      case (Some a)
      then have vk: "json_parseValue k (json_parser_next (json_parser_next p)) = Some a"
        using IHv k by blast
      show ?thesis
      proof (cases a)
        case (Ok xp)
        obtain x p2 where xp: "xp = (x, p2)" by (cases xp)
        show ?thesis
        proof (cases "j_typ (j_token p) = json_tokenString
            \<and> j_typ (j_token (json_parser_next p)) = json_tokenColon
            \<and> j_typ (j_token p2) \<noteq> json_tokenRightBrace \<and> j_typ (j_token p2) = json_tokenComma")
          case True
          then have "json_parseObject_loop n (AList.update (j_value (j_token p)) x obj)
              (json_parser_next p2) = Some r"
            using h1 Some Ok xp by simp
          then have "json_parseObject_loop k (AList.update (j_value (j_token p)) x obj)
              (json_parser_next p2) = Some r"
            using IHo k by blast
          then show ?thesis unfolding m using True vk Ok xp by simp
        next
          case False
          then show ?thesis using h1 Some vk Ok xp unfolding m by (auto split: if_splits)
        qed
      next
        case (Error e)
        then show ?thesis using h1 Some vk unfolding m by (auto split: if_splits)
      next
        case (Panic q)
        then show ?thesis using h1 Some vk unfolding m by (auto split: if_splits)
      qed
    qed
  qed
  have a: "json_parseArray_loop m arr p = Some r"
    if h1: "json_parseArray_loop (Suc n) arr p = Some r" and h2: "Suc n \<le> m" for p arr r m
  proof -
    obtain k where m: "m = Suc k" and k: "n \<le> k"
      using h2 by (cases m) auto
    show ?thesis
    proof (cases "json_parseValue n p")
      case None
      then show ?thesis using h1 unfolding m by (auto split: if_splits)
    next
      case (Some a)
      then have vk: "json_parseValue k p = Some a"
        using IHv k by blast
      show ?thesis
      proof (cases a)
        case (Ok xp)
        obtain x p2 where xp: "xp = (x, p2)" by (cases xp)
        show ?thesis
        proof (cases "j_typ (j_token p2) \<noteq> json_tokenRightBracket \<and> j_typ (j_token p2) = json_tokenComma")
          case True
          then have "json_parseArray_loop n (arr @ [x]) (json_parser_next p2) = Some r"
            using h1 Some Ok xp by simp
          then have "json_parseArray_loop k (arr @ [x]) (json_parser_next p2) = Some r"
            using IHa k by blast
          then show ?thesis unfolding m using True vk Ok xp by simp
        next
          case False
          then show ?thesis using h1 Some vk Ok xp unfolding m by (auto split: if_splits)
        qed
      next
        case (Error e)
        then show ?thesis using h1 Some vk unfolding m by (auto split: if_splits)
      next
        case (Panic q)
        then show ?thesis using h1 Some vk unfolding m by (auto split: if_splits)
      qed
    qed
  qed
  show ?case using v o a by blast
qed

lemma json_parse_append_sim:
  assumes cut: "clean_cut p t"
  shows
  "(\<forall>p0 q0 v p1. json_follows p t p0 q0 \<longrightarrow> json_parseValue n p0 = Some (Ok (v, p1)) \<longrightarrow>
      (\<exists>q1. json_parseValue n q0 = Some (Ok (v, q1)) \<and> json_follows p t p1 q1))
   \<and> (\<forall>p0 q0 obj v p1. json_follows p t p0 q0 \<longrightarrow>
        json_parseObject_loop n obj p0 = Some (Ok (v, p1)) \<longrightarrow>
      (\<exists>q1. json_parseObject_loop n obj q0 = Some (Ok (v, q1)) \<and> json_follows p t p1 q1))
   \<and> (\<forall>p0 q0 arr v p1. json_follows p t p0 q0 \<longrightarrow>
        json_parseArray_loop n arr p0 = Some (Ok (v, p1)) \<longrightarrow>
      (\<exists>q1. json_parseArray_loop n arr q0 = Some (Ok (v, q1)) \<and> json_follows p t p1 q1))"
proof (induction n)
  case 0
  show ?case by simp
next
  case (Suc n)
  note IHv = Suc.IH [THEN conjunct1, rule_format]
  note IHo = Suc.IH [THEN conjunct2, THEN conjunct1, rule_format]
  note IHa = Suc.IH [THEN conjunct2, THEN conjunct2, rule_format]
  have nxt: "json_follows p t (json_parser_next p0) (json_parser_next (json_ext t p0))"
    if "j_input (j_lexer p0) = p" for p0
    using that cut by (rule json_parser_next_ext)
  have same: "q0 = json_ext t p0" if "json_follows p t p0 q0" "j_typ (j_token p0) \<noteq> json_tokenEOF" for p0 q0
    using that by (simp add: json_follows_def)
  have inp: "j_input (j_lexer p0) = p" if "json_follows p t p0 q0" for p0 q0
    using that by (simp add: json_follows_def)
  have v: "\<exists>q1. json_parseValue (Suc n) q0 = Some (Ok (v, q1)) \<and> json_follows p t p1 q1"
    if f: "json_follows p t p0 q0" and r: "json_parseValue (Suc n) p0 = Some (Ok (v, p1))"
    for p0 q0 v p1
  proof -
    have ne: "j_typ (j_token p0) \<noteq> json_tokenEOF"
      using r by (auto simp: json_err_def)
    have q0: "q0 = json_ext t p0"
      using same [OF f ne] .
    have f1: "json_follows p t (json_parser_next p0) (json_parser_next q0)"
      unfolding q0 using nxt [OF inp [OF f]] .
    show ?thesis
    proof (cases "j_typ (j_token p0)")
      case json_tokenLeftBrace
      show ?thesis
      proof (cases "j_typ (j_token (json_parser_next p0)) = json_tokenRightBrace")
        case True
        then have q1: "json_parser_next q0 = json_ext t (json_parser_next p0)"
          using same [OF f1] by simp
        have "json_follows p t (json_parser_next (json_parser_next p0))
            (json_parser_next (json_parser_next q0))"
          unfolding q1 using nxt [OF inp [OF f1]] .
        then show ?thesis using r json_tokenLeftBrace True q0 q1 by simp
      next
        case False
        then have l: "json_parseObject_loop n [] (json_parser_next p0) = Some (Ok (v, p1))"
          using r json_tokenLeftBrace by simp
        then have "j_typ (j_token (json_parser_next p0)) = json_tokenString"
          by (cases n) (auto simp: json_err_def split: if_splits)
        then have q1: "json_parser_next q0 = json_ext t (json_parser_next p0)"
          using same [OF f1] by simp
        show ?thesis using IHo [OF f1 l] json_tokenLeftBrace False q0 q1 by simp
      qed
    next
      case json_tokenLeftBracket
      show ?thesis
      proof (cases "j_typ (j_token (json_parser_next p0)) = json_tokenRightBracket")
        case True
        then have q1: "json_parser_next q0 = json_ext t (json_parser_next p0)"
          using same [OF f1] by simp
        have "json_follows p t (json_parser_next (json_parser_next p0))
            (json_parser_next (json_parser_next q0))"
          unfolding q1 using nxt [OF inp [OF f1]] .
        then show ?thesis using r json_tokenLeftBracket True q0 q1 by simp
      next
        case False
        then have l: "json_parseArray_loop n [] (json_parser_next p0) = Some (Ok (v, p1))"
          using r json_tokenLeftBracket by simp
        then have "j_typ (j_token (json_parser_next p0)) \<noteq> json_tokenEOF"
          by (cases n; cases "n - 1") (auto simp: json_err_def split: if_splits)
        then have q1: "json_parser_next q0 = json_ext t (json_parser_next p0)"
          using same [OF f1] by simp
        show ?thesis using IHa [OF f1 l] json_tokenLeftBracket False q0 q1 by simp
      qed
    qed (use r f1 q0 in \<open>auto simp: json_err_def split: sum.splits if_splits\<close>)
  qed
  have o: "\<exists>q1. json_parseObject_loop (Suc n) obj q0 = Some (Ok (v, q1)) \<and> json_follows p t p1 q1"
    if f: "json_follows p t p0 q0" and r: "json_parseObject_loop (Suc n) obj p0 = Some (Ok (v, p1))"
    for p0 q0 obj v p1
  proof -
    have t0: "j_typ (j_token p0) = json_tokenString"
      and t1: "j_typ (j_token (json_parser_next p0)) = json_tokenColon"
      using r by (auto simp: json_err_def split: if_splits)
    have q0: "q0 = json_ext t p0"
      using same [OF f] t0 by simp
    have f1: "json_follows p t (json_parser_next p0) (json_parser_next q0)"
      unfolding q0 using nxt [OF inp [OF f]] .
    have q1: "json_parser_next q0 = json_ext t (json_parser_next p0)"
      using same [OF f1] t1 by simp
    have f2: "json_follows p t (json_parser_next (json_parser_next p0))
        (json_parser_next (json_parser_next q0))"
      unfolding q1 using nxt [OF inp [OF f1]] .
    obtain x p2 where pv: "json_parseValue n (json_parser_next (json_parser_next p0)) = Some (Ok (x, p2))"
      using r t0 t1 by (auto split: option.splits ret.splits)
    obtain q2 where qv: "json_parseValue n (json_parser_next (json_parser_next q0)) = Some (Ok (x, q2))"
      and f3: "json_follows p t p2 q2"
      using IHv [OF f2 pv] by blast
    show ?thesis
    proof (cases "j_typ (j_token p2) = json_tokenRightBrace")
      case True
      then have q2: "q2 = json_ext t p2"
        using same [OF f3] by simp
      have "json_follows p t (json_parser_next p2) (json_parser_next q2)"
        unfolding q2 using nxt [OF inp [OF f3]] .
      then show ?thesis using r t0 t1 pv qv True q0 q1 q2 by simp
    next
      case False
      then have c: "j_typ (j_token p2) = json_tokenComma"
        using r t0 t1 pv by (auto simp: json_err_def split: if_splits)
      then have q2: "q2 = json_ext t p2"
        using same [OF f3] by simp
      have f4: "json_follows p t (json_parser_next p2) (json_parser_next q2)"
        unfolding q2 using nxt [OF inp [OF f3]] .
      have l: "json_parseObject_loop n (AList.update (j_value (j_token p0)) x obj) (json_parser_next p2)
          = Some (Ok (v, p1))"
        using r t0 t1 pv False c by simp
      show ?thesis using IHo [OF f4 l] t0 t1 qv False c q0 q1 q2 by simp
    qed
  qed
  have a: "\<exists>q1. json_parseArray_loop (Suc n) arr q0 = Some (Ok (v, q1)) \<and> json_follows p t p1 q1"
    if f: "json_follows p t p0 q0" and r: "json_parseArray_loop (Suc n) arr p0 = Some (Ok (v, p1))"
    for p0 q0 arr v p1
  proof -
    obtain x p2 where pv: "json_parseValue n p0 = Some (Ok (x, p2))"
      using r by (auto split: option.splits ret.splits)
    obtain q2 where qv: "json_parseValue n q0 = Some (Ok (x, q2))"
      and f3: "json_follows p t p2 q2"
      using IHv [OF f pv] by blast
    show ?thesis
    proof (cases "j_typ (j_token p2) = json_tokenRightBracket")
      case True
      then have q2: "q2 = json_ext t p2"
        using same [OF f3] by simp
      have "json_follows p t (json_parser_next p2) (json_parser_next q2)"
        unfolding q2 using nxt [OF inp [OF f3]] .
      then show ?thesis using r pv qv True q2 by simp
    next
      case False
      then have c: "j_typ (j_token p2) = json_tokenComma"
        using r pv by (auto simp: json_err_def split: if_splits)
      then have q2: "q2 = json_ext t p2"
        using same [OF f3] by simp
      have f4: "json_follows p t (json_parser_next p2) (json_parser_next q2)"
        unfolding q2 using nxt [OF inp [OF f3]] .
      have l: "json_parseArray_loop n (arr @ [x]) (json_parser_next p2) = Some (Ok (v, p1))"
        using r pv False c by simp
      show ?thesis using IHa [OF f4 l] qv False c q2 by simp
    qed
  qed
  show ?case using v o a by blast
qed

lemma json_newParser_follows:
  assumes "clean_cut p t"
  shows "json_follows p t (json_newParser p) (json_newParser (p @ t))"
proof -
  have "json_newParser (p @ t) = json_ext t (json_newParser p)"
    if "j_typ (j_token (json_newParser p)) \<noteq> json_tokenEOF"
    using that json_lexer_next_append [of "json_newLexer p" p t] assms
    by (simp add: json_newParser_def json_newLexer_def json_ext_def)
  then show ?thesis
    by (simp add: json_follows_def json_newParser_def json_newLexer_def)
qed

text \<open>Parsing a prefix that is a complete value is not disturbed by what follows a clean cut.\<close>

lemma json_parse_append:
  assumes ok: "json_parse p = Some (Ok v)" and cut: "clean_cut p t"
  shows "json_parse (p @ t) = Some (Ok v)"
proof -
  obtain p1 where r: "json_parseValue (2 * length p + 3) (json_newParser p) = Some (Ok (v, p1))"
    using ok by (auto simp: json_parse_def split: option.splits ret.splits prod.splits)
  obtain q1 where "json_parseValue (2 * length p + 3) (json_newParser (p @ t)) = Some (Ok (v, q1))"
    using json_parse_append_sim [OF cut, of "2 * length p + 3", THEN conjunct1, rule_format,
        OF json_newParser_follows [OF cut] r]
    by blast
  then have "json_parseValue (2 * length (p @ t) + 3) (json_newParser (p @ t)) = Some (Ok (v, q1))"
    using json_fuel_mono [of "2 * length p + 3", THEN conjunct1, rule_format,
        of "json_newParser (p @ t)" "Ok (v, q1)" "2 * length (p @ t) + 3"]
    by simp
  then show ?thesis
    by (simp add: json_parse_def)
qed

text \<open>Both decoders return on every input and for every destination.\<close>

theorem json_Unmarshal_returns: "\<exists>r. json_Unmarshal data v = Some r"
proof -
  obtain r where "json_parse data = Some r"
    using json_parse_returns by blast
  then show ?thesis
    by (cases r) (simp_all add: json_Unmarshal_def)
qed

theorem toml_Unmarshal_returns: "\<exists>r. toml_Unmarshal data v = Some r"
proof -
  obtain r where "toml_parse data = Some r"
    using toml_parse_returns by blast
  then show ?thesis
    by (cases r) (simp_all add: toml_Unmarshal_def)
qed

section \<open>Properties of the decoder\<close>

lemma sres_state_map: "sres_state (sres_map f r) = map_option f (sres_state r)"
  by (cases r) (simp_all add: sres_map_def)

lemma setFields_no_keys: "setFields key [] fs = Done fs"
  by (induction fs) (simp_all add: sres_map_def)

lemma setFields_length:
  "sres_state (setFields key obj fs) = Some fs' \<Longrightarrow> length fs' = length fs"
proof (induction fs arbitrary: fs')
  case Nil
  then show ?case by simp
next
  case (Cons fv fs)
  then show ?case
    by (auto simp: sres_state_map split: if_splits option.splits sres.splits)
qed

lemma setFields_names:
  "sres_state (setFields key obj fs) = Some fs' \<Longrightarrow> map fst fs' = map fst fs"
proof (induction fs arbitrary: fs')
  case Nil
  then show ?case by simp
next
  case (Cons fv fs)
  then show ?case
    by (auto simp: sres_state_map split: if_splits option.splits sres.splits)
qed




text \<open>An \<^verbatim>\<open>int64\<close> that is stored in a 64-bit field is stored as it is.\<close>

lemma float_to_int64_3: "float_to_int64 3 = 3"
  by (simp add: float_to_int64_def truncRat_def)

section \<open>Concrete runs\<close>

lemma toml_parse_empty_header: "toml_parse ''[]'' = Some (Panic PanicSliceBounds)"
  by code_simp

lemma toml_parse_nested_header:
  "toml_parse ''[a.b]\<newline>k = 1'' = Some (Error (ErrExpectedRBracket 0 []))"
  by code_simp

text \<open>
  With quoted keys the header is read, and the type assertion on the last segment, which
  nothing has created, panics.
\<close>

lemma toml_quoted_header_panics:
  "toml_parse (''['' @ [CHR 0x22] @ ''a'' @ [CHR 0x22] @ ''.'' @ [CHR 0x22] @ ''b'' @ [CHR 0x22]
               @ '']\<newline>'' @ [CHR 0x22] @ ''k'' @ [CHR 0x22] @ '' = 1'')
     = Some (Panic PanicInterfaceConversion)"
  by code_simp

text \<open>A bare key is no token: the lexer answers end of input, and the parser an empty table.\<close>

lemma toml_parse_invalid: "toml_parse ''invalid = toml]'' = Some (Ok [])"
  by code_simp

lemma json_parse_invalid: "json_parse ''{invalid json}'' = Some (Error (ErrExpectedStringKey 0 []))"
  by code_simp

lemma json_parse_3_0: "json_parse ''3.0'' = Some (Ok (DFloat64 3))"
  by (simp add: json_parse_def json_newParser_def json_newLexer_def json_lexer_next_def Let_def
      json_skipWhitespace.simps isSpace_def isDigit_def json_next_rest_def json_readNumber_def
      json_readNumber_loop.simps numberByte_def json_tok_def slice_def containsByte_def
      ParseFloat_def stripSign_def floatOf_def decimal_def digitVal_def json_parser_next_def
      eval_nat_numeral)

lemma json_parse_3: "json_parse ''3'' = Some (Ok (DInt64 3))"
  by code_simp

text \<open>A \<^verbatim>\<open>float64\<close> field that holds a whole number is written without a point, read back
  as an \<^verbatim>\<open>int64\<close>, and rejected by the float branch of \<^verbatim>\<open>setValue\<close>.\<close>

lemma json_whole_float_encoded:
  "json_Marshal (VStruct [(field_F, VFloat KFloat64 3)]) = Ok ([CHR 0x7B, CHR 0x22] @ ''F'' @ [CHR 0x22] @ '':3'' @ [CHR 0x7D])"
  by code_simp

lemma json_whole_float_rejected:
  "json_Unmarshal ([CHR 0x7B, CHR 0x22] @ ''F'' @ [CHR 0x22] @ '':3'' @ [CHR 0x7D])
     (VPtr (TStruct [(field_F, TFloat KFloat64)]) (Some (VStruct [(field_F, VFloat KFloat64 0)])))
   = Some (Failed (VPtr (TStruct [(field_F, TFloat KFloat64)]) (Some (VStruct [(field_F, VFloat KFloat64 0)])))
        (ErrCannotConvert (DInt64 3) ''float''))"
  by code_simp

text \<open>The missing case of the float branch: an \<^verbatim>\<open>int64\<close> source is rejected.\<close>

lemma setValue_float_rejects_int:
  "setValue key (VFloat k x) (DInt64 i) = Failed (VFloat k x) (ErrCannotConvert (DInt64 i) ''float'')"
  by simp

section \<open>The claims\<close>

text \<open>
  Claim C1: encoding a record of supported field kinds and decoding the bytes into a
  fresh zero destination of the same type gives back the record, for JSON and for TOML.
  The code does not: \<^verbatim>\<open>escapeString\<close> escapes a quote on the way out and \<^verbatim>\<open>readString\<close>
  keeps the backslash on the way in, so the JSON round trip of \<^verbatim>\<open>struct{S string}{"a\"b"}\<close>
  yields the four bytes \<^verbatim>\<open>a\"b\<close>; and the TOML encoder writes the bare key \<^verbatim>\<open>S\<close>, which the
  TOML lexer does not read, so the TOML round trip of \<^verbatim>\<open>struct{S string}{"x"}\<close> leaves the
  destination at its zero value, with a nil error.
\<close>

theorem C1_round_trip_fails:
  "json_Marshal (recS [CHR ''a'', CHR 0x22, CHR ''b''])
     = Ok ([CHR 0x7B, CHR 0x22] @ ''S'' @ [CHR 0x22] @ '':''
           @ [CHR 0x22, CHR ''a'', CHR 0x5C, CHR 0x22, CHR ''b'', CHR 0x22, CHR 0x7D])
   \<and> json_Unmarshal ([CHR 0x7B, CHR 0x22] @ ''S'' @ [CHR 0x22] @ '':''
           @ [CHR 0x22, CHR ''a'', CHR 0x5C, CHR 0x22, CHR ''b'', CHR 0x22, CHR 0x7D]) (ptrS [])
     = Some (Done (ptrS [CHR ''a'', CHR 0x5C, CHR 0x22, CHR ''b'']))
   \<and> toml_Marshal (recS ''x'') = Ok (''S = '' @ [CHR 0x22, CHR ''x'', CHR 0x22])
   \<and> toml_Unmarshal (''S = '' @ [CHR 0x22, CHR ''x'', CHR 0x22]) (ptrS []) = Some (Done (ptrS []))"
  by code_simp

text \<open>
  Claim C2: no call of Marshal or Unmarshal panics, in particular not in the table-header
  handling of the TOML parser.  On the two bytes \<^verbatim>\<open>[]\<close> the path of the header is empty
  and \<^verbatim>\<open>path[:len(path)-1]\<close> panics, whatever the destination is.
\<close>

theorem C2_toml_empty_header_panics:
  "toml_Unmarshal ''[]'' v = Some (Panicked PanicSliceBounds)"
  by (simp add: toml_Unmarshal_def toml_parse_empty_header)

text \<open>
  Claim C4, as amended: decoding Null into a pointer, a sequence, a mapping, a record
  (also \<^verbatim>\<open>time.Time\<close>) or an interface target resets the target to the zero value of its
  type and returns no error, whatever the target held; a string, integer, float or
  boolean target rejects Null with a conversion error and keeps its value.
\<close>

theorem C4_null_resets_composites_only:
  "setValue key (VPtr t p) DNil = Done (zero (typeOf (VPtr t p)))
   \<and> setValue key (VSlice t xs) DNil = Done (zero (typeOf (VSlice t xs)))
   \<and> setValue key (VMap kt t m) DNil = Done (zero (typeOf (VMap kt t m)))
   \<and> setValue key (VStruct fs) DNil = Done (zero (typeOf (VStruct fs)))
   \<and> setValue key (VTime tm) DNil = Done (zero (typeOf (VTime tm)))
   \<and> setValue key (VInterface x) DNil = Done (zero (typeOf (VInterface x)))
   \<and> setValue key (VString s) DNil = Failed (VString s) (ErrCannotConvert DNil ''string'')
   \<and> setValue key (VInt ik i) DNil = Failed (VInt ik i) (ErrCannotConvert DNil ''int'')
   \<and> setValue key (VUint uk u) DNil = Failed (VUint uk u) (ErrCannotConvert DNil ''uint'')
   \<and> setValue key (VFloat fk f) DNil = Failed (VFloat fk f) (ErrCannotConvert DNil ''float'')
   \<and> setValue key (VBool b) DNil = Failed (VBool b) (ErrCannotConvert DNil ''bool'')"
  by simp

text \<open>
  Claim C4 as stated fails for a scalar target: JSON \<^verbatim>\<open>null\<close> decoded into a string
  variable returns an error and the variable keeps its value.
\<close>

theorem C4_null_into_string_fails:
  "json_Unmarshal ''null'' (VPtr TString (Some (VString ''abc'')))
     = Some (Failed (VPtr TString (Some (VString ''abc''))) (ErrCannotConvert DNil ''string''))"
  by code_simp

text \<open>
  Claim C5: TOML decode of \<^verbatim>\<open>[a.b]\<close>, newline, \<^verbatim>\<open>k = 1\<close> succeeds with \<open>root.a.b.k = 1\<close>.
  The code returns the error \<^verbatim>\<open>expected ], got {0 }\<close> and leaves the destination as it
  was: the bare key \<^verbatim>\<open>a\<close> is no token for the lexer.
\<close>

theorem C5_toml_nested_header_fails:
  "toml_Unmarshal ''[a.b]\<newline>k = 1'' v = Some (Failed v (ErrExpectedRBracket 0 []))"
  by (simp add: toml_Unmarshal_def toml_parse_nested_header)

text \<open>
  Claim C6: JSON Unmarshal of \<^verbatim>\<open>{invalid json}\<close> and TOML Unmarshal of
  \<^verbatim>\<open>invalid = toml]\<close> both return an error.  The JSON decoder does, for every
  destination; the TOML decoder returns a nil error and leaves every record destination
  untouched.
\<close>

theorem C6_toml_accepts_malformed_input:
  "json_Unmarshal ''{invalid json}'' v = Some (Failed v (ErrExpectedStringKey 0 []))
   \<and> toml_Unmarshal ''invalid = toml]'' (VPtr t (Some (VStruct fs)))
       = Some (Done (VPtr t (Some (VStruct fs))))"
  by (simp add: json_Unmarshal_def json_parse_invalid toml_Unmarshal_def toml_parse_invalid
        decodeInto_def sres_map_def setFields_no_keys)

text \<open>
  Claim C7, as amended: the literal \<^verbatim>\<open>3.0\<close> parses as the Float 3 and the literal \<^verbatim>\<open>3\<close> as
  the Integer 3; a Float source decodes into a destination of every integer kind by
  dropping its fraction (and truncating to the width of the kind), without an error.
\<close>

theorem C7_float_narrows_into_integer:
  "json_parse ''3.0'' = Some (Ok (DFloat64 3))
   \<and> json_parse ''3'' = Some (Ok (DInt64 3))
   \<and> setValue key (VInt k i) (DFloat64 f) = Done (VInt k (wrapInt (intBits k) (float_to_int64 f)))
   \<and> float_to_int64 3 = 3"
  by (simp add: json_parse_3_0 json_parse_3 float_to_int64_3)

text \<open>
  Claim C7 as stated fails: JSON \<^verbatim>\<open>3.0\<close> decoded into an \<^verbatim>\<open>int\<close> variable holding 0 stores 3
  and returns no error.
\<close>

theorem C7_float_literal_into_int:
  "json_Unmarshal ''3.0'' (ptrInt 0) = Some (Done (ptrInt 3))"
  by (simp add: json_Unmarshal_def json_parse_3_0 decodeInto_def ptrInt_def sres_map_def
        float_to_int64_3 wrapInt_def intBits_def)



text \<open>
  Claim C9: a nil sequence encodes as \<^verbatim>\<open>null\<close> in the JSON codec and as \<^verbatim>\<open>[]\<close> in the TOML
  codec, for every element type (and every prefix), at the top level too.
\<close>

theorem C9_nil_sequence:
  "json_marshalValue (VSlice t None) = Ok ''null''
   \<and> toml_marshalValue (VSlice t None) prefix = Ok ''[]''
   \<and> json_Marshal (VSlice t None) = Ok ''null''
   \<and> toml_Marshal (VSlice t None) = Ok ''[]''"
  by (simp add: json_Marshal_def toml_Marshal_def)

text \<open>
  Claim C10, as amended: JSON Unmarshal parses one value and does not look at what
  follows it.  When the input \<open>p\<close> parses as a value and the cut between \<open>p\<close> and the
  trailing bytes \<open>t\<close> does not run through a number (\<open>t\<close> is empty, or does not start
  with a byte that can stand in a number, or \<open>p\<close> does not end with such a byte), then
  \<open>p @ t\<close> parses as the same value, and decoding \<open>p @ t\<close> returns, for every destination,
  what decoding \<open>p\<close> returns: no error comes from the trailing bytes.
\<close>

theorem C10_trailing_content_ignored:
  assumes "json_parse p = Some (Ok v)" and "clean_cut p t"
  shows "json_parse (p @ t) = Some (Ok v) \<and> json_Unmarshal (p @ t) dst = json_Unmarshal p dst"
  using json_parse_append [OF assms] assms(1) by (simp add: json_Unmarshal_def)

text \<open>
  The array \<^verbatim>\<open>[1,2]\<close> followed by the bytes \<^verbatim>\<open>} x\<close> decodes into a nil \<^verbatim>\<open>[]int\<close> as the
  array alone does.
\<close>

theorem C10_trailing_content_ignored_witness:
  "json_parse ''[1,2]'' = Some (Ok (DSlice [DInt64 1, DInt64 2]))
   \<and> clean_cut ''[1,2]'' [CHR 0x7D, CHR '' '', CHR ''x'']
   \<and> json_parse (''[1,2]'' @ [CHR 0x7D, CHR '' '', CHR ''x'']) = Some (Ok (DSlice [DInt64 1, DInt64 2]))
   \<and> json_Unmarshal (''[1,2]'' @ [CHR 0x7D, CHR '' '', CHR ''x'']) (ptrInts None)
       = Some (Done (ptrInts (Some [VInt KInt 1, VInt KInt 2])))"
proof -
  have ok: "json_parse ''[1,2]'' = Some (Ok (DSlice [DInt64 1, DInt64 2]))"
    by code_simp
  have cut: "clean_cut ''[1,2]'' [CHR 0x7D, CHR '' '', CHR ''x'']"
    by (simp add: clean_cut_def numberByte_def isDigit_def)
  have alone: "json_Unmarshal ''[1,2]'' (ptrInts None)
      = Some (Done (ptrInts (Some [VInt KInt 1, VInt KInt 2])))"
    by code_simp
  from C10_trailing_content_ignored [OF ok cut, of "ptrInts None"] ok cut alone show ?thesis
    by simp
qed

text \<open>
  Claim C10 as stated fails when the cut runs through a number: \<^verbatim>\<open>1\<close> is a complete
  value, and \<^verbatim>\<open>1-\<close> is read as one number token that \<^verbatim>\<open>strconv.ParseInt\<close> rejects.
\<close>

theorem C10_trailing_minus_fails:
  "json_parse ''1'' = Some (Ok (DInt64 1))
   \<and> json_Unmarshal (''1'' @ ''-'') (ptrInt 0)
       = Some (Failed (ptrInt 0) (ErrNum ''ParseInt'' ''1-'' ErrSyntax))"
  by code_simp

end
